theory Spec2Isabelle
  imports Main "HOL-Library.Product_Lexorder"
begin

section \<open>Python runtime conventions\<close>

text \<open>
  Exceptions of the Python runtime that the modelled code can raise. Every function that
  indexes a list or a dictionary returns \<open>py_error + 'a\<close>, with \<open>Inl\<close> the exception.
\<close>

datatype py_error = IndexError | KeyError | ValueError | UnboundLocalError

definition bindE :: "py_error + 'a \<Rightarrow> ('a \<Rightarrow> py_error + 'b) \<Rightarrow> py_error + 'b" where
  "bindE m f = (case m of Inl e \<Rightarrow> Inl e | Inr x \<Rightarrow> f x)"

text \<open>
  Subscripts: \<open>py_index n i\<close> is the offset that the subscript \<open>i\<close> denotes in a list of
  \<open>n\<close> elements. Subscripts from \<open>-n\<close> to \<open>-1\<close> count from the end of the list; any
  subscript outside \<open>[-n, n)\<close> denotes nothing, and the access raises \<open>IndexError\<close>.
\<close>

definition py_index :: "nat \<Rightarrow> int \<Rightarrow> nat option" where
  "py_index n i =
     (if 0 \<le> i \<and> i < int n then Some (nat i)
      else if - int n \<le> i \<and> i < 0 then Some (nat (int n + i))
      else None)"

definition py_get :: "'a list \<Rightarrow> int \<Rightarrow> py_error + 'a" where
  "py_get xs i = (case py_index (length xs) i of None \<Rightarrow> Inl IndexError | Some k \<Rightarrow> Inr (xs ! k))"

definition py_set :: "'a list \<Rightarrow> int \<Rightarrow> 'a \<Rightarrow> py_error + 'a list" where
  "py_set xs i v =
     (case py_index (length xs) i of None \<Rightarrow> Inl IndexError | Some k \<Rightarrow> Inr (xs[k := v]))"

section \<open>grid.py: the grid\<close>

datatype CellType = EMPTY | WALL | START | END | VISITED | PATH | EXPLORING

type_synonym pos = "int \<times> int"

record Grid =
  rows :: int
  cols :: int
  grid :: "CellType list list"
  start_pos :: "pos option"
  end_pos :: "pos option"

text \<open>\<open>Grid.__init__\<close>: \<open>range(n)\<close> is empty for \<open>n \<le> 0\<close>.\<close>

definition Grid_init :: "int \<Rightarrow> int \<Rightarrow> Grid" where
  "Grid_init r c =
     \<lparr>rows = r, cols = c, grid = replicate (nat r) (replicate (nat c) EMPTY),
      start_pos = None, end_pos = None\<rparr>"

text \<open>\<open>self.grid[row][col]\<close> as an expression and as an assignment target.\<close>

definition grid_at :: "Grid \<Rightarrow> int \<Rightarrow> int \<Rightarrow> py_error + CellType" where
  "grid_at g row col = bindE (py_get (grid g) row) (\<lambda>line. py_get line col)"

definition grid_put :: "Grid \<Rightarrow> int \<Rightarrow> int \<Rightarrow> CellType \<Rightarrow> py_error + Grid" where
  "grid_put g row col v =
     bindE (py_get (grid g) row) (\<lambda>line.
     bindE (py_set line col v) (\<lambda>line'.
     bindE (py_set (grid g) row line') (\<lambda>arr. Inr (g\<lparr>grid := arr\<rparr>))))"

definition get_cell :: "Grid \<Rightarrow> int \<Rightarrow> int \<Rightarrow> py_error + CellType" where
  "get_cell g row col =
     (if 0 \<le> row \<and> row < rows g \<and> 0 \<le> col \<and> col < cols g
      then grid_at g row col
      else Inr WALL)"

text \<open>
  The three branches of \<open>set_cell\<close> on the cell type, before the final guarded
  assignment that all calls share.
\<close>

definition clear_old_start :: "Grid \<Rightarrow> py_error + Grid" where
  "clear_old_start g =
     (case start_pos g of
        None \<Rightarrow> Inr g
      | Some (old_row, old_col) \<Rightarrow>
          bindE (grid_at g old_row old_col) (\<lambda>cur.
            if cur = START then grid_put g old_row old_col EMPTY else Inr g))"

definition clear_old_end :: "Grid \<Rightarrow> py_error + Grid" where
  "clear_old_end g =
     (case end_pos g of
        None \<Rightarrow> Inr g
      | Some (old_row, old_col) \<Rightarrow>
          bindE (grid_at g old_row old_col) (\<lambda>cur.
            if cur = END then grid_put g old_row old_col EMPTY else Inr g))"

definition set_cell_branch :: "Grid \<Rightarrow> int \<Rightarrow> int \<Rightarrow> CellType \<Rightarrow> py_error + Grid" where
  "set_cell_branch g row col cell_type =
     (if cell_type = WALL then
        bindE (grid_at g row col) (\<lambda>cur.
          grid_put (if cur = START then g\<lparr>start_pos := None\<rparr>
                    else if cur = END then g\<lparr>end_pos := None\<rparr>
                    else g) row col WALL)
      else if cell_type = START then
        bindE (clear_old_start g) (\<lambda>g1.
          let g2 = g1\<lparr>start_pos := Some (row, col)\<rparr>
          in bindE (grid_at g2 row col) (\<lambda>cur.
               if cur \<noteq> END then grid_put g2 row col START else Inr g2))
      else if cell_type = END then
        bindE (clear_old_end g) (\<lambda>g1. Inr (g1\<lparr>end_pos := Some (row, col)\<rparr>))
      else Inr g)"

definition set_cell :: "Grid \<Rightarrow> int \<Rightarrow> int \<Rightarrow> CellType \<Rightarrow> py_error + Grid" where
  "set_cell g row col cell_type =
     (if 0 \<le> row \<and> row < rows g \<and> 0 \<le> col \<and> col < cols g then
        bindE (set_cell_branch g row col cell_type) (\<lambda>g'.
        bindE (grid_at g' row col) (\<lambda>cur.
          if cur \<noteq> START \<and> cur \<noteq> END then grid_put g' row col cell_type else Inr g'))
      else Inr g)"

text \<open>A sequence of \<open>set_cell\<close> calls on one grid object; an exception ends it.\<close>

fun set_cells :: "Grid \<Rightarrow> (int \<times> int \<times> CellType) list \<Rightarrow> py_error + Grid" where
  "set_cells g [] = Inr g"
| "set_cells g ((row, col, cell_type) # calls) =
     bindE (set_cell g row col cell_type) (\<lambda>g'. set_cells g' calls)"

text \<open>
  \<open>get_wall_count\<close> counts the Wall cells with two nested \<open>range\<close> loops; \<open>count_cells\<close>
  is that loop for any cell type.
\<close>

definition all_positions :: "Grid \<Rightarrow> pos list" where
  "all_positions g = List.product [0 .. rows g - 1] [0 .. cols g - 1]"

definition count_cells :: "Grid \<Rightarrow> CellType \<Rightarrow> py_error + nat" where
  "count_cells g ct =
     foldl (\<lambda>acc (row, col).
        bindE acc (\<lambda>count. bindE (grid_at g row col) (\<lambda>cur.
          Inr (if cur = ct then count + 1 else count))))
       (Inr 0) (all_positions g)"

definition get_wall_count :: "Grid \<Rightarrow> py_error + nat" where
  "get_wall_count g = count_cells g WALL"

text \<open>The class invariant of the array: \<open>rows\<close> lines of \<open>cols\<close> cells each.\<close>

definition wf_grid :: "Grid \<Rightarrow> bool" where
  "wf_grid g \<longleftrightarrow>
     length (grid g) = nat (rows g) \<and> (\<forall>line \<in> set (grid g). length line = nat (cols g))"

definition in_bounds :: "Grid \<Rightarrow> int \<Rightarrow> int \<Rightarrow> bool" where
  "in_bounds g row col \<longleftrightarrow> 0 \<le> row \<and> row < rows g \<and> 0 \<le> col \<and> col < cols g"

text \<open>
  The invariant that ties the array to the two position fields: a Start (End) cell of the
  array is the one \<open>start_pos\<close> (\<open>end_pos\<close>) names, and both fields name cells of the grid.
\<close>

definition grid_inv :: "Grid \<Rightarrow> bool" where
  "grid_inv g \<longleftrightarrow>
     wf_grid g \<and>
     (\<forall>r c. in_bounds g r c \<longrightarrow> grid_at g r c = Inr START \<longrightarrow> start_pos g = Some (r, c)) \<and>
     (\<forall>r c. in_bounds g r c \<longrightarrow> grid_at g r c = Inr END \<longrightarrow> end_pos g = Some (r, c)) \<and>
     (\<forall>r c. start_pos g = Some (r, c) \<longrightarrow> in_bounds g r c) \<and>
     (\<forall>r c. end_pos g = Some (r, c) \<longrightarrow> in_bounds g r c)"

section \<open>puzzle_logic.py: the sliding puzzle\<close>

text \<open>\<open>range(n)\<close>: the integers from 0 up to but not including \<open>n\<close>; empty for \<open>n \<le> 0\<close>.\<close>

definition py_range :: "int \<Rightarrow> int list" where
  "py_range n = map int [0 ..< nat n]"

record Puzzle =
  size' :: int
  total_tiles :: int
  state :: "int list list"

text \<open>
  \<open>_generate_goal_state\<close>: two nested \<open>range(self.size)\<close> loops share the counter \<open>num\<close>;
  the inner loop returns the row it built and the counter.
\<close>

fun goal_row :: "int \<Rightarrow> nat \<Rightarrow> int \<Rightarrow> int list \<Rightarrow> int list \<times> int" where
  "goal_row tiles 0 num line = (line, num)"
| "goal_row tiles (Suc k) num line =
     (if num \<le> tiles then goal_row tiles k (num + 1) (line @ [num])
      else goal_row tiles k num (line @ [0]))"

fun goal_rows :: "int \<Rightarrow> nat \<Rightarrow> nat \<Rightarrow> int \<Rightarrow> int list list \<Rightarrow> int list list" where
  "goal_rows tiles n 0 num goal = goal"
| "goal_rows tiles n (Suc k) num goal =
     (case goal_row tiles n num [] of (line, num') \<Rightarrow> goal_rows tiles n k num' (goal @ [line]))"

definition generate_goal_state :: "Puzzle \<Rightarrow> int list list" where
  "generate_goal_state p = goal_rows (total_tiles p) (nat (size' p)) (nat (size' p)) 1 []"

text \<open>
  \<open>Puzzle.__init__\<close>: the range check is on the argument \<open>size\<close>; with a \<open>state\<close> the
  size is then taken from the board, and \<open>total_tiles\<close> keeps the value computed from the
  argument.
\<close>

definition Puzzle_init :: "int \<Rightarrow> int list list option \<Rightarrow> py_error + Puzzle" where
  "Puzzle_init sz st =
     (if sz < 3 \<or> sz > 5 then Inl ValueError
      else case st of
             None \<Rightarrow>
               (let p = \<lparr>size' = sz, total_tiles = sz * sz - 1, state = []\<rparr>
                in Inr (p\<lparr>state := generate_goal_state p\<rparr>))
           | Some board \<Rightarrow>
               Inr \<lparr>size' = int (length board), total_tiles = sz * sz - 1, state = board\<rparr>)"

definition copy :: "Puzzle \<Rightarrow> py_error + Puzzle" where
  "copy p = Puzzle_init (size' p) (Some (state p))"

text \<open>\<open>self.state[i][j]\<close> as an expression and as an assignment target.\<close>

definition state_at :: "Puzzle \<Rightarrow> int \<Rightarrow> int \<Rightarrow> py_error + int" where
  "state_at p i j = bindE (py_get (state p) i) (\<lambda>line. py_get line j)"

definition state_put :: "Puzzle \<Rightarrow> int \<Rightarrow> int \<Rightarrow> int \<Rightarrow> py_error + Puzzle" where
  "state_put p i j v =
     bindE (py_get (state p) i) (\<lambda>line.
     bindE (py_set line j v) (\<lambda>line'.
     bindE (py_set (state p) i line') (\<lambda>board. Inr (p\<lparr>state := board\<rparr>))))"

text \<open>
  \<open>find_empty\<close>: the two nested loops visit the cells in reading order and return at the
  first zero; \<open>(-1, -1)\<close> when there is none.
\<close>

fun first_empty :: "Puzzle \<Rightarrow> pos list \<Rightarrow> py_error + pos" where
  "first_empty p [] = Inr (- 1, - 1)"
| "first_empty p ((i, j) # cells) =
     bindE (state_at p i j) (\<lambda>v. if v = 0 then Inr (i, j) else first_empty p cells)"

definition find_empty :: "Puzzle \<Rightarrow> py_error + pos" where
  "find_empty p = first_empty p (List.product (py_range (size' p)) (py_range (size' p)))"

definition is_goal :: "Puzzle \<Rightarrow> bool" where
  "is_goal p \<longleftrightarrow> state p = generate_goal_state p"

definition get_valid_moves :: "Puzzle \<Rightarrow> py_error + string list" where
  "get_valid_moves p =
     bindE (find_empty p) (\<lambda>(row, col). Inr
       ((if row > 0 then [''up''] else []) @
        (if row < size' p - 1 then [''down''] else []) @
        (if col > 0 then [''left''] else []) @
        (if col < size' p - 1 then [''right''] else [])))"

text \<open>
  \<open>make_move\<close> returns the flag and the puzzle after the call. The right-hand side of the
  swap is read before either cell is written. A direction that matches no branch of the
  \<open>if\<close> chain would leave \<open>new_row\<close> unbound.
\<close>

definition make_move :: "Puzzle \<Rightarrow> string \<Rightarrow> py_error + bool \<times> Puzzle" where
  "make_move p direction =
     bindE (get_valid_moves p) (\<lambda>moves.
       if direction \<notin> set moves then Inr (False, p)
       else bindE (find_empty p) (\<lambda>(row, col).
         bindE (if direction = ''up'' then Inr (row - 1, col)
                else if direction = ''down'' then Inr (row + 1, col)
                else if direction = ''left'' then Inr (row, col - 1)
                else if direction = ''right'' then Inr (row, col + 1)
                else Inl UnboundLocalError) (\<lambda>(new_row, new_col).
         bindE (state_at p new_row new_col) (\<lambda>a.
         bindE (state_at p row col) (\<lambda>b.
         bindE (state_put p row col a) (\<lambda>p1.
         bindE (state_put p1 new_row new_col b) (\<lambda>p2. Inr (True, p2))))))))"

text \<open>
  \<open>is_solvable\<close>: the comprehension that flattens the board, the two index loops that
  count the inversions, and the parity test.
\<close>

fun flatten_cells :: "Puzzle \<Rightarrow> pos list \<Rightarrow> py_error + int list" where
  "flatten_cells p [] = Inr []"
| "flatten_cells p ((i, j) # cells) =
     bindE (state_at p i j) (\<lambda>v.
     bindE (flatten_cells p cells) (\<lambda>rest. Inr (if v \<noteq> 0 then v # rest else rest)))"

definition count_inversions :: "int list \<Rightarrow> int" where
  "count_inversions flat =
     foldl (\<lambda>inversions i.
        foldl (\<lambda>inversions j. if flat ! i > flat ! j then inversions + 1 else inversions)
          inversions [i + 1 ..< length flat])
       0 [0 ..< length flat]"

definition is_solvable :: "Puzzle \<Rightarrow> py_error + bool" where
  "is_solvable p =
     bindE (flatten_cells p (List.product (py_range (size' p)) (py_range (size' p)))) (\<lambda>flat.
       let inversions = count_inversions flat in
       if size' p mod 2 = 1 then Inr (inversions mod 2 = 0)
       else bindE (find_empty p) (\<lambda>(empty_row, _).
         let empty_row_from_bottom = size' p - 1 - empty_row
         in Inr ((inversions + empty_row_from_bottom) mod 2 = 0)))"

text \<open>
  A board as the program builds it: \<open>size\<close> rows of \<open>size\<close> tiles, one of them the blank.
\<close>

definition wf_puzzle :: "Puzzle \<Rightarrow> bool" where
  "wf_puzzle p \<longleftrightarrow>
     size' p = int (length (state p)) \<and>
     (\<forall>line \<in> set (state p). length line = length (state p)) \<and>
     (\<exists>line \<in> set (state p). 0 \<in> set line)"

text \<open>
  The solvability rule in the words of the specification: \<open>spec_inversions\<close> is the number
  of index pairs \<open>i < j\<close> of the flattened board (blank left out) with \<open>tile[i] > tile[j]\<close>,
  \<open>spec_blank_row_from_bottom\<close> the row of the blank counted from the last row, which is 0.
\<close>

definition spec_flat :: "Puzzle \<Rightarrow> int list" where
  "spec_flat p = filter (\<lambda>v. v \<noteq> 0) (concat (state p))"

definition spec_inversions :: "int list \<Rightarrow> nat" where
  "spec_inversions tile =
     length (filter (\<lambda>(i, j). i < j \<and> tile ! i > tile ! j)
               (List.product [0 ..< length tile] [0 ..< length tile]))"

definition spec_blank_row_from_bottom :: "Puzzle \<Rightarrow> int" where
  "spec_blank_row_from_bottom p =
     int (length (state p)) - 1 - int (length (takeWhile (\<lambda>line. 0 \<notin> set line) (state p)))"

definition spec_solvable :: "Puzzle \<Rightarrow> bool" where
  "spec_solvable p \<longleftrightarrow>
     (odd (size' p) \<and> even (spec_inversions (spec_flat p))) \<or>
     (even (size' p) \<and>
      even (int (spec_inversions (spec_flat p)) + spec_blank_row_from_bottom p))"

text \<open>The shape alone, and the cells of the board.\<close>

definition square_board :: "Puzzle \<Rightarrow> bool" where
  "square_board p \<longleftrightarrow>
     size' p = int (length (state p)) \<and> (\<forall>line \<in> set (state p). length line = length (state p))"

definition on_board :: "Puzzle \<Rightarrow> int \<Rightarrow> int \<Rightarrow> bool" where
  "on_board p i j \<longleftrightarrow> 0 \<le> i \<and> i < size' p \<and> 0 \<le> j \<and> j < size' p"

text \<open>The cell next to \<open>(row, col)\<close> in a direction, as the specification names the moves.\<close>

definition neighbour_cell :: "string \<Rightarrow> pos \<Rightarrow> pos" where
  "neighbour_cell direction rc =
     (case rc of (row, col) \<Rightarrow>
        if direction = ''up'' then (row - 1, col)
        else if direction = ''down'' then (row + 1, col)
        else if direction = ''left'' then (row, col - 1)
        else (row, col + 1))"

text \<open>
  \<open>swapped b a c\<close>: the board \<open>b\<close> with the contents of the cells \<open>a\<close> and \<open>c\<close> exchanged.
\<close>

definition board_cell :: "int list list \<Rightarrow> pos \<Rightarrow> int" where
  "board_cell b rc = b ! nat (fst rc) ! nat (snd rc)"

definition board_with :: "int list list \<Rightarrow> pos \<Rightarrow> int \<Rightarrow> int list list" where
  "board_with b rc v = b[nat (fst rc) := (b ! nat (fst rc))[nat (snd rc) := v]]"

definition swapped :: "int list list \<Rightarrow> pos \<Rightarrow> pos \<Rightarrow> int list list" where
  "swapped b a c = board_with (board_with b a (board_cell b c)) c (board_cell b a)"

section \<open>grid.py: validity and neighbours\<close>

definition is_valid :: "Grid \<Rightarrow> int \<Rightarrow> int \<Rightarrow> py_error + bool" where
  "is_valid g row col =
     (if 0 \<le> row \<and> row < rows g \<and> 0 \<le> col \<and> col < cols g
      then bindE (grid_at g row col) (\<lambda>cur. Inr (cur \<noteq> WALL))
      else Inr False)"

fun neighbors_loop :: "Grid \<Rightarrow> int \<Rightarrow> int \<Rightarrow> pos list \<Rightarrow> pos list \<Rightarrow> py_error + pos list" where
  "neighbors_loop g row col [] neighbors = Inr neighbors"
| "neighbors_loop g row col ((dr, dc) # directions) neighbors =
     bindE (is_valid g (row + dr) (col + dc)) (\<lambda>ok.
       neighbors_loop g row col directions
         (if ok then neighbors @ [(row + dr, col + dc)] else neighbors))"

definition get_neighbors :: "Grid \<Rightarrow> int \<Rightarrow> int \<Rightarrow> bool \<Rightarrow> py_error + pos list" where
  "get_neighbors g row col diagonal =
     neighbors_loop g row col
       ([(0, 1), (1, 0), (0, - 1), (- 1, 0)] @
        (if diagonal then [(1, 1), (1, - 1), (- 1, 1), (- 1, - 1)] else []))
       []"

section \<open>algorithms.py: the four searches\<close>

text \<open>
  The searches are modelled for \<open>on_visit = None\<close>. A search returns \<open>None\<close> when it does
  not return, \<open>Some (Inl e)\<close> when it raises \<open>e\<close>, and \<open>Some (Inr result)\<close> otherwise.
\<close>

record PathfindingResult =
  path :: "pos list"
  visited :: "pos list"
  exploring :: "pos list"
  found :: bool
  path_length :: int
  nodes_explored :: int

definition PathfindingResult_init :: PathfindingResult where
  "PathfindingResult_init =
     \<lparr>path = [], visited = [], exploring = [], found = False, path_length = 0,
      nodes_explored = 0\<rparr>"

text \<open>
  The guard \<open>not grid.is_valid(*start) or not grid.is_valid(*end)\<close> that opens each search;
  \<open>or\<close> does not evaluate its second operand when the first is true.
\<close>

definition endpoint_invalid :: "Grid \<Rightarrow> pos \<Rightarrow> pos \<Rightarrow> py_error + bool" where
  "endpoint_invalid g start end' =
     bindE (is_valid g (fst start) (snd start)) (\<lambda>ok_start.
       if \<not> ok_start then Inr True
       else bindE (is_valid g (fst end') (snd end')) (\<lambda>ok_end. Inr (\<not> ok_end)))"

text \<open>
  The path reconstruction loop \<open>while node is not None\<close>, shared by the four searches: a
  missing key raises \<open>KeyError\<close>, and on a cyclic predecessor map the loop does not end.
\<close>

partial_function (option) reconstruct ::
  "(pos \<rightharpoonup> pos option) \<Rightarrow> pos option \<Rightarrow> pos list \<Rightarrow> (py_error + pos list) option" where
  "reconstruct parent node path' =
     (case node of
        None \<Rightarrow> Some (Inr path')
      | Some n \<Rightarrow>
          (case parent n of
             None \<Rightarrow> Some (Inl KeyError)
           | Some next_node \<Rightarrow> reconstruct parent next_node (path' @ [n])))"

text \<open>The block executed when \<open>current == end\<close>; \<open>count\<close> is the size of the visited set.\<close>

definition finish :: "(pos \<rightharpoonup> pos option) \<Rightarrow> pos \<Rightarrow> int \<Rightarrow> PathfindingResult \<Rightarrow>
    (py_error + PathfindingResult) option" where
  "finish parent end' count result =
     (case reconstruct parent (Some end') [] of
        None \<Rightarrow> None
      | Some (Inl e) \<Rightarrow> Some (Inl e)
      | Some (Inr path') \<Rightarrow>
          Some (Inr (result\<lparr>path := rev path', found := True,
                           path_length := int (length (rev path')) - 1,
                           nodes_explored := count\<rparr>)))"

subsection \<open>Breadth-first search\<close>

fun bfs_visit :: "pos list \<Rightarrow> pos \<Rightarrow> pos list \<Rightarrow> pos set \<Rightarrow> (pos \<rightharpoonup> pos option) \<Rightarrow> pos list \<Rightarrow>
    pos list \<times> pos set \<times> (pos \<rightharpoonup> pos option) \<times> pos list" where
  "bfs_visit [] current queue visited_set parent rvisited = (queue, visited_set, parent, rvisited)"
| "bfs_visit (neighbor # neighbors) current queue visited_set parent rvisited =
     (if neighbor \<notin> visited_set
      then bfs_visit neighbors current (queue @ [neighbor]) (insert neighbor visited_set)
             (parent(neighbor \<mapsto> Some current)) (rvisited @ [neighbor])
      else bfs_visit neighbors current queue visited_set parent rvisited)"

partial_function (option) bfs_loop ::
  "Grid \<Rightarrow> pos \<Rightarrow> pos list \<Rightarrow> pos set \<Rightarrow> (pos \<rightharpoonup> pos option) \<Rightarrow> PathfindingResult \<Rightarrow>
     (py_error + PathfindingResult) option" where
  "bfs_loop g end' queue visited_set parent result =
     (case queue of
        [] \<Rightarrow> Some (Inr (result\<lparr>nodes_explored := int (card visited_set)\<rparr>))
      | current # rest \<Rightarrow>
          (let result1 = result\<lparr>exploring := exploring result @ [current]\<rparr>
           in if current = end' then finish parent end' (int (card visited_set)) result1
              else (case get_neighbors g (fst current) (snd current) False of
                      Inl e \<Rightarrow> Some (Inl e)
                    | Inr neighbors \<Rightarrow>
                        (case bfs_visit neighbors current rest visited_set parent (visited result1) of
                           (queue', visited_set', parent', rvisited') \<Rightarrow>
                             bfs_loop g end' queue' visited_set' parent'
                               (result1\<lparr>visited := rvisited'\<rparr>)))))"

definition bfs :: "Grid \<Rightarrow> pos \<Rightarrow> pos \<Rightarrow> (py_error + PathfindingResult) option" where
  "bfs g start end' =
     (case endpoint_invalid g start end' of
        Inl e \<Rightarrow> Some (Inl e)
      | Inr True \<Rightarrow> Some (Inr PathfindingResult_init)
      | Inr False \<Rightarrow>
          bfs_loop g end' [start] {start} [start \<mapsto> None] PathfindingResult_init)"

subsection \<open>Depth-first search\<close>

text \<open>The stack is a list whose last element is the top: \<open>pop()\<close> and \<open>append\<close>.\<close>

partial_function (option) dfs_loop ::
  "Grid \<Rightarrow> pos \<Rightarrow> pos list \<Rightarrow> pos set \<Rightarrow> (pos \<rightharpoonup> pos option) \<Rightarrow> PathfindingResult \<Rightarrow>
     (py_error + PathfindingResult) option" where
  "dfs_loop g end' stack visited_set parent result =
     (if stack = [] then Some (Inr (result\<lparr>nodes_explored := int (card visited_set)\<rparr>))
      else
        (let current = last stack; rest = butlast stack;
             result1 = result\<lparr>exploring := exploring result @ [current]\<rparr>
         in if current = end' then finish parent end' (int (card visited_set)) result1
            else (case get_neighbors g (fst current) (snd current) False of
                    Inl e \<Rightarrow> Some (Inl e)
                  | Inr neighbors \<Rightarrow>
                      (case bfs_visit neighbors current rest visited_set parent (visited result1) of
                         (stack', visited_set', parent', rvisited') \<Rightarrow>
                           dfs_loop g end' stack' visited_set' parent'
                             (result1\<lparr>visited := rvisited'\<rparr>)))))"

definition dfs :: "Grid \<Rightarrow> pos \<Rightarrow> pos \<Rightarrow> (py_error + PathfindingResult) option" where
  "dfs g start end' =
     (case endpoint_invalid g start end' of
        Inl e \<Rightarrow> Some (Inl e)
      | Inr True \<Rightarrow> Some (Inr PathfindingResult_init)
      | Inr False \<Rightarrow>
          dfs_loop g end' [start] {start} [start \<mapsto> None] PathfindingResult_init)"

subsection \<open>The priority queue\<close>

text \<open>
  \<open>heapq\<close> keeps the entries in a list arranged as a binary heap; the searches only push
  entries and pop the least one, in the order of Python tuples (first the key, then the
  row, then the column). The model keeps the entries in a list: \<open>heappush\<close> appends, and
  \<open>heappop\<close> takes out the least entry. \<open>heappop\<close> is called on a non-empty list only.
\<close>

type_synonym heap = "(int \<times> pos) list"

definition heappush :: "heap \<Rightarrow> int \<times> pos \<Rightarrow> heap" where
  "heappush h x = h @ [x]"

definition heappop :: "heap \<Rightarrow> (int \<times> pos) \<times> heap" where
  "heappop h = (let m = Min (set h) in (m, remove1 m h))"

subsection \<open>A*\<close>

definition heuristic :: "int \<Rightarrow> int \<Rightarrow> int \<Rightarrow> int \<Rightarrow> int" where
  "heuristic row1 col1 row2 col2 = \<bar>row1 - row2\<bar> + \<bar>col1 - col2\<bar>"

text \<open>
  The state of the A* loop besides the grid and the goal. \<open>a_visited\<close> is the list
  \<open>result.visited\<close>.
\<close>

record astar_state =
  open_set :: heap
  came_from :: "pos \<rightharpoonup> pos option"
  g_score :: "pos \<rightharpoonup> int"
  f_score :: "pos \<rightharpoonup> int"
  a_visited :: "pos list"

fun astar_visit :: "pos list \<Rightarrow> pos \<Rightarrow> pos \<Rightarrow> pos set \<Rightarrow> astar_state \<Rightarrow> py_error + astar_state" where
  "astar_visit [] current end' visited_set s = Inr s"
| "astar_visit (neighbor # neighbors) current end' visited_set s =
     (if neighbor \<in> visited_set then astar_visit neighbors current end' visited_set s
      else case g_score s current of
             None \<Rightarrow> Inl KeyError
           | Some g_current \<Rightarrow>
               (let tentative_g = g_current + 1 in
                if (case g_score s neighbor of None \<Rightarrow> True | Some g_old \<Rightarrow> tentative_g < g_old)
                then
                  (let f = tentative_g + heuristic (fst neighbor) (snd neighbor) (fst end') (snd end')
                   in astar_visit neighbors current end' visited_set
                        (s\<lparr>came_from := (came_from s)(neighbor \<mapsto> Some current),
                           g_score := (g_score s)(neighbor \<mapsto> tentative_g),
                           f_score := (f_score s)(neighbor \<mapsto> f),
                           open_set := heappush (open_set s) (f, neighbor),
                           a_visited := (if neighbor \<notin> set (a_visited s)
                                         then a_visited s @ [neighbor] else a_visited s)\<rparr>))
                else astar_visit neighbors current end' visited_set s))"

partial_function (option) astar_loop ::
  "Grid \<Rightarrow> pos \<Rightarrow> pos set \<Rightarrow> astar_state \<Rightarrow> PathfindingResult \<Rightarrow>
     (py_error + PathfindingResult) option" where
  "astar_loop g end' visited_set s result =
     (if open_set s = [] then Some (Inr (result\<lparr>nodes_explored := int (card visited_set)\<rparr>))
      else
        (case heappop (open_set s) of
           ((current_f, current), heap') \<Rightarrow>
             if current \<in> visited_set then astar_loop g end' visited_set (s\<lparr>open_set := heap'\<rparr>) result
             else
               (let visited_set' = insert current visited_set;
                    result1 = result\<lparr>exploring := exploring result @ [current]\<rparr>
                in if current = end'
                   then finish (came_from s) end' (int (card visited_set')) result1
                   else (case get_neighbors g (fst current) (snd current) False of
                           Inl e \<Rightarrow> Some (Inl e)
                         | Inr neighbors \<Rightarrow>
                             (case astar_visit neighbors current end' visited_set'
                                     (s\<lparr>open_set := heap', a_visited := visited result1\<rparr>) of
                                Inl e \<Rightarrow> Some (Inl e)
                              | Inr s' \<Rightarrow>
                                  astar_loop g end' visited_set' s'
                                    (result1\<lparr>visited := a_visited s'\<rparr>))))))"

definition astar :: "Grid \<Rightarrow> pos \<Rightarrow> pos \<Rightarrow> (py_error + PathfindingResult) option" where
  "astar g start end' =
     (case endpoint_invalid g start end' of
        Inl e \<Rightarrow> Some (Inl e)
      | Inr True \<Rightarrow> Some (Inr PathfindingResult_init)
      | Inr False \<Rightarrow>
          astar_loop g end' {}
            \<lparr>open_set = [(0, start)], came_from = [start \<mapsto> None], g_score = [start \<mapsto> 0],
             f_score = [start \<mapsto> heuristic (fst start) (snd start) (fst end') (snd end')],
             a_visited = []\<rparr>
            PathfindingResult_init)"

subsection \<open>Dijkstra\<close>

record dijkstra_state =
  pq :: heap
  distances :: "pos \<rightharpoonup> int"
  d_parent :: "pos \<rightharpoonup> pos option"
  d_visited :: "pos list"

fun dijkstra_visit :: "pos list \<Rightarrow> pos \<Rightarrow> int \<Rightarrow> pos set \<Rightarrow> dijkstra_state \<Rightarrow> dijkstra_state" where
  "dijkstra_visit [] current current_dist visited_set s = s"
| "dijkstra_visit (neighbor # neighbors) current current_dist visited_set s =
     (if neighbor \<in> visited_set then dijkstra_visit neighbors current current_dist visited_set s
      else
        (let new_dist = current_dist + 1 in
         if (case distances s neighbor of None \<Rightarrow> True | Some old \<Rightarrow> new_dist < old)
         then dijkstra_visit neighbors current current_dist visited_set
                (s\<lparr>distances := (distances s)(neighbor \<mapsto> new_dist),
                   d_parent := (d_parent s)(neighbor \<mapsto> Some current),
                   pq := heappush (pq s) (new_dist, neighbor),
                   d_visited := (if neighbor \<notin> set (d_visited s)
                                 then d_visited s @ [neighbor] else d_visited s)\<rparr>)
         else dijkstra_visit neighbors current current_dist visited_set s))"

partial_function (option) dijkstra_loop ::
  "Grid \<Rightarrow> pos \<Rightarrow> pos set \<Rightarrow> dijkstra_state \<Rightarrow> PathfindingResult \<Rightarrow>
     (py_error + PathfindingResult) option" where
  "dijkstra_loop g end' visited_set s result =
     (if pq s = [] then Some (Inr (result\<lparr>nodes_explored := int (card visited_set)\<rparr>))
      else
        (case heappop (pq s) of
           ((current_dist, current), heap') \<Rightarrow>
             if current \<in> visited_set then dijkstra_loop g end' visited_set (s\<lparr>pq := heap'\<rparr>) result
             else
               (let visited_set' = insert current visited_set;
                    result1 = result\<lparr>exploring := exploring result @ [current]\<rparr>
                in if current = end'
                   then finish (d_parent s) end' (int (card visited_set')) result1
                   else (case get_neighbors g (fst current) (snd current) False of
                           Inl e \<Rightarrow> Some (Inl e)
                         | Inr neighbors \<Rightarrow>
                             (let s' = dijkstra_visit neighbors current current_dist visited_set'
                                         (s\<lparr>pq := heap', d_visited := visited result1\<rparr>)
                              in dijkstra_loop g end' visited_set' s'
                                   (result1\<lparr>visited := d_visited s'\<rparr>))))))"

definition dijkstra :: "Grid \<Rightarrow> pos \<Rightarrow> pos \<Rightarrow> (py_error + PathfindingResult) option" where
  "dijkstra g start end' =
     (case endpoint_invalid g start end' of
        Inl e \<Rightarrow> Some (Inl e)
      | Inr True \<Rightarrow> Some (Inr PathfindingResult_init)
      | Inr False \<Rightarrow>
          dijkstra_loop g end' {}
            \<lparr>pq = [(0, start)], distances = [start \<mapsto> 0], d_parent = [start \<mapsto> None],
             d_visited = []\<rparr>
            PathfindingResult_init)"

text \<open>The unfolding equations of the loops are their code equations.\<close>

declare reconstruct.simps [code] bfs_loop.simps [code] dfs_loop.simps [code]
  astar_loop.simps [code] dijkstra_loop.simps [code]

subsection \<open>The graph of the grid\<close>

text \<open>
  A position is a node of the graph when it is in bounds and not a Wall; \<open>nbrs\<close> lists
  the nodes next to a position in the order \<open>get_neighbors\<close> tries the four directions.
\<close>

definition valid_cell :: "Grid \<Rightarrow> pos \<Rightarrow> bool" where
  "valid_cell g p \<longleftrightarrow> in_bounds g (fst p) (snd p) \<and> grid_at g (fst p) (snd p) \<noteq> Inr WALL"

definition nbrs :: "Grid \<Rightarrow> pos \<Rightarrow> pos list" where
  "nbrs g p =
     filter (valid_cell g)
       [(fst p, snd p + 1), (fst p + 1, snd p), (fst p, snd p - 1), (fst p - 1, snd p)]"

subsection \<open>Auxiliary notions for the proofs about the searches\<close>

text \<open>
  \<open>chain parent S v n\<close>: following the predecessor map from \<open>v\<close> reaches the entry \<open>None\<close>
  after \<open>n\<close> steps, through nodes of \<open>S\<close> only.
\<close>

inductive chain :: "(pos \<rightharpoonup> pos option) \<Rightarrow> pos set \<Rightarrow> pos \<Rightarrow> nat \<Rightarrow> bool"
  for parent :: "pos \<rightharpoonup> pos option" and S :: "pos set" where
  chain_root: "v \<in> S \<Longrightarrow> parent v = Some None \<Longrightarrow> chain parent S v 0"
| chain_step: "v \<in> S \<Longrightarrow> parent v = Some (Some u) \<Longrightarrow> chain parent S u n \<Longrightarrow>
     chain parent S v (Suc n)"

text \<open>
  \<open>fresh neighbors seen\<close>: the neighbours that the inner loop of \<open>bfs\<close> and \<open>dfs\<close> appends,
  in order: those not seen before, each once.
\<close>

fun fresh :: "pos list \<Rightarrow> pos set \<Rightarrow> pos list" where
  "fresh [] seen = []"
| "fresh (n # ns) seen = (if n \<notin> seen then n # fresh ns (insert n seen) else fresh ns seen)"

text \<open>The invariant of the loops of \<open>bfs\<close> and \<open>dfs\<close> that makes the path reconstruction succeed.\<close>

definition frontier_inv :: "pos list \<Rightarrow> pos set \<Rightarrow> (pos \<rightharpoonup> pos option) \<Rightarrow> bool" where
  "frontier_inv frontier seen parent \<longleftrightarrow>
     set frontier \<subseteq> seen \<and> (\<forall>v \<in> seen. \<exists>n. chain parent seen v n)"

text \<open>
  The invariant of the loops of \<open>astar\<close> and \<open>dijkstra\<close> that makes the look-ups and the path
  reconstruction succeed: the entries of the heap are nodes with a score; a node with a score
  that is not settled has the start marker or a settled node as predecessor; the predecessors
  of a settled node lead to the start marker through settled nodes.
\<close>

definition heap_inv :: "Grid \<Rightarrow> pos set \<Rightarrow> heap \<Rightarrow> (pos \<rightharpoonup> int) \<Rightarrow> (pos \<rightharpoonup> pos option) \<Rightarrow> bool" where
  "heap_inv g settled h score parent \<longleftrightarrow>
     (\<forall>x \<in> set h. valid_cell g (snd x) \<and> snd x \<in> dom score) \<and>
     (\<forall>v \<in> dom score. v \<notin> settled \<longrightarrow>
        parent v = Some None \<or> (\<exists>u \<in> settled. parent v = Some (Some u))) \<and>
     (\<forall>v \<in> settled. \<exists>n. chain parent settled v n)"

section \<open>bfs_solver.py: the puzzle solver\<close>

text \<open>
  \<open>Puzzle.__eq__\<close> compares \<open>state\<close> and \<open>size\<close>, and \<open>__hash__\<close> is derived from \<open>state\<close>: the
  set \<open>visited\<close> of the solver holds puzzles up to this pair.
\<close>

definition puzzle_key :: "Puzzle \<Rightarrow> int list list \<times> int" where
  "puzzle_key p = (state p, size' p)"

text \<open>\<open>BFSSolver.__init__\<close> stores a copy of the puzzle.\<close>

definition BFSSolver_init :: "Puzzle \<Rightarrow> py_error + Puzzle" where
  "BFSSolver_init puzzle = copy puzzle"

text \<open>
  The \<open>for move in current_puzzle.get_valid_moves()\<close> loop of \<open>solve\<close>: the flag that
  \<open>make_move\<close> returns is not looked at.
\<close>

fun solve_moves :: "string list \<Rightarrow> Puzzle \<Rightarrow> string list \<Rightarrow> (Puzzle \<times> string list) list \<Rightarrow>
    (int list list \<times> int) set \<Rightarrow>
    py_error + (Puzzle \<times> string list) list \<times> (int list list \<times> int) set" where
  "solve_moves [] current_puzzle path' queue visited_set = Inr (queue, visited_set)"
| "solve_moves (move # moves) current_puzzle path' queue visited_set =
     bindE (copy current_puzzle) (\<lambda>new_puzzle.
     bindE (make_move new_puzzle move) (\<lambda>(ok, new_puzzle).
       if puzzle_key new_puzzle \<notin> visited_set
       then solve_moves moves current_puzzle path'
              (queue @ [(new_puzzle, path' @ [move])]) (insert (puzzle_key new_puzzle) visited_set)
       else solve_moves moves current_puzzle path' queue visited_set))"

text \<open>
  The \<open>while queue\<close> loop. The result is \<open>None\<close> when the loop does not end,
  \<open>Some (Inl e)\<close> when it raises, \<open>Some (Inr None)\<close> when the method returns \<open>None\<close> and
  \<open>Some (Inr (Some moves))\<close> when it returns a list of moves.
\<close>

partial_function (option) solve_loop ::
  "(Puzzle \<times> string list) list \<Rightarrow> (int list list \<times> int) set \<Rightarrow>
     (py_error + string list option) option" where
  "solve_loop queue visited_set =
     (case queue of
        [] \<Rightarrow> Some (Inr None)
      | (current_puzzle, path') # rest \<Rightarrow>
          if is_goal current_puzzle then Some (Inr (Some path'))
          else (case get_valid_moves current_puzzle of
                  Inl e \<Rightarrow> Some (Inl e)
                | Inr moves \<Rightarrow>
                    (case solve_moves moves current_puzzle path' rest visited_set of
                       Inl e \<Rightarrow> Some (Inl e)
                     | Inr (queue', visited_set') \<Rightarrow> solve_loop queue' visited_set')))"

declare solve_loop.simps [code]

definition solve :: "Puzzle \<Rightarrow> (py_error + string list option) option" where
  "solve initial_puzzle =
     (if is_goal initial_puzzle then Some (Inr (Some []))
      else case is_solvable initial_puzzle of
             Inl e \<Rightarrow> Some (Inl e)
           | Inr False \<Rightarrow> Some (Inr None)
           | Inr True \<Rightarrow>
               (case copy initial_puzzle of
                  Inl e \<Rightarrow> Some (Inl e)
                | Inr first \<Rightarrow> solve_loop [(first, [])] {puzzle_key initial_puzzle}))"

text \<open>Applying a list of moves one after the other with \<open>make_move\<close>.\<close>

fun apply_moves :: "Puzzle \<Rightarrow> string list \<Rightarrow> py_error + Puzzle" where
  "apply_moves p [] = Inr p"
| "apply_moves p (move # moves) =
     bindE (make_move p move) (\<lambda>(ok, p'). apply_moves p' moves)"

text \<open>
  The puzzles that \<open>copy\<close> returns: the size is that of the board and is in the accepted
  range, and \<open>total_tiles\<close> belongs to the size.
\<close>

definition proper :: "Puzzle \<Rightarrow> bool" where
  "proper p \<longleftrightarrow>
     3 \<le> size' p \<and> size' p \<le> 5 \<and> size' p = int (length (state p)) \<and>
     total_tiles p = size' p * size' p - 1"

text \<open>
  The canonical goal of size \<open>n\<close> as the board is described: the tiles \<open>1\<close> to \<open>n * n - 1\<close>
  row by row, then the blank in the last cell.
\<close>

definition canonical_goal :: "nat \<Rightarrow> int list list" where
  "canonical_goal n =
     map (\<lambda>i. map (\<lambda>j. if i * n + j + 1 < n * n then int (i * n + j + 1) else 0) [0..<n]) [0..<n]"

text \<open>
  The invariant of the queue of \<open>solve\<close>: every entry holds a puzzle and the moves that lead
  to it from the first puzzle.
\<close>

definition queue_ok :: "Puzzle \<Rightarrow> (Puzzle \<times> string list) list \<Rightarrow> bool" where
  "queue_ok initial queue \<longleftrightarrow>
     (\<forall>(q, moves) \<in> set queue. proper q \<and> apply_moves initial moves = Inr q)"

section \<open>The order of the frontier events\<close>

text \<open>
  The four searches with two history variables added to the state of the loop and to what
  is returned: \<open>entered\<close> lists the positions in the order they are put into the frontier
  (the entry \<open>start\<close> the frontier is created with, then every \<open>append\<close> or \<open>heappush\<close>), and
  \<open>dequeued\<close> lists the positions in the order they are taken out of it (\<open>popleft\<close>, \<open>pop\<close>,
  \<open>heappop\<close>; for A* and Dijkstra also the entries that are then skipped). Nothing else is
  changed. The inner loops put their entries behind those the frontier holds: the positions
  put in during one iteration are read off behind the old entries.
\<close>

type_synonym events = "PathfindingResult \<times> pos list \<times> pos list"

definition with_events :: "pos list \<Rightarrow> pos list \<Rightarrow> (py_error + PathfindingResult) option \<Rightarrow>
    (py_error + events) option" where
  "with_events entered dequeued out = map_option (map_sum id (\<lambda>r. (r, entered, dequeued))) out"

partial_function (option) bfs_events ::
  "Grid \<Rightarrow> pos \<Rightarrow> pos list \<Rightarrow> pos set \<Rightarrow> (pos \<rightharpoonup> pos option) \<Rightarrow> PathfindingResult \<Rightarrow>
     pos list \<Rightarrow> pos list \<Rightarrow> (py_error + events) option" where
  "bfs_events g end' queue visited_set parent result entered dequeued =
     (case queue of
        [] \<Rightarrow> Some (Inr (result\<lparr>nodes_explored := int (card visited_set)\<rparr>, entered, dequeued))
      | current # rest \<Rightarrow>
          (let dequeued1 = dequeued @ [current];
               result1 = result\<lparr>exploring := exploring result @ [current]\<rparr>
           in if current = end'
              then with_events entered dequeued1
                     (finish parent end' (int (card visited_set)) result1)
              else (case get_neighbors g (fst current) (snd current) False of
                      Inl e \<Rightarrow> Some (Inl e)
                    | Inr neighbors \<Rightarrow>
                        (case bfs_visit neighbors current rest visited_set parent (visited result1) of
                           (queue', visited_set', parent', rvisited') \<Rightarrow>
                             bfs_events g end' queue' visited_set' parent'
                               (result1\<lparr>visited := rvisited'\<rparr>)
                               (entered @ drop (length rest) queue') dequeued1))))"

definition bfs_traced :: "Grid \<Rightarrow> pos \<Rightarrow> pos \<Rightarrow> (py_error + events) option" where
  "bfs_traced g start end' =
     (case endpoint_invalid g start end' of
        Inl e \<Rightarrow> Some (Inl e)
      | Inr True \<Rightarrow> Some (Inr (PathfindingResult_init, [], []))
      | Inr False \<Rightarrow>
          bfs_events g end' [start] {start} [start \<mapsto> None] PathfindingResult_init [start] [])"

partial_function (option) dfs_events ::
  "Grid \<Rightarrow> pos \<Rightarrow> pos list \<Rightarrow> pos set \<Rightarrow> (pos \<rightharpoonup> pos option) \<Rightarrow> PathfindingResult \<Rightarrow>
     pos list \<Rightarrow> pos list \<Rightarrow> (py_error + events) option" where
  "dfs_events g end' stack visited_set parent result entered dequeued =
     (if stack = []
      then Some (Inr (result\<lparr>nodes_explored := int (card visited_set)\<rparr>, entered, dequeued))
      else
        (let current = last stack; rest = butlast stack;
             dequeued1 = dequeued @ [current];
             result1 = result\<lparr>exploring := exploring result @ [current]\<rparr>
         in if current = end'
            then with_events entered dequeued1
                   (finish parent end' (int (card visited_set)) result1)
            else (case get_neighbors g (fst current) (snd current) False of
                    Inl e \<Rightarrow> Some (Inl e)
                  | Inr neighbors \<Rightarrow>
                      (case bfs_visit neighbors current rest visited_set parent (visited result1) of
                         (stack', visited_set', parent', rvisited') \<Rightarrow>
                           dfs_events g end' stack' visited_set' parent'
                             (result1\<lparr>visited := rvisited'\<rparr>)
                             (entered @ drop (length rest) stack') dequeued1))))"

definition dfs_traced :: "Grid \<Rightarrow> pos \<Rightarrow> pos \<Rightarrow> (py_error + events) option" where
  "dfs_traced g start end' =
     (case endpoint_invalid g start end' of
        Inl e \<Rightarrow> Some (Inl e)
      | Inr True \<Rightarrow> Some (Inr (PathfindingResult_init, [], []))
      | Inr False \<Rightarrow>
          dfs_events g end' [start] {start} [start \<mapsto> None] PathfindingResult_init [start] [])"

partial_function (option) astar_events ::
  "Grid \<Rightarrow> pos \<Rightarrow> pos set \<Rightarrow> astar_state \<Rightarrow> PathfindingResult \<Rightarrow>
     pos list \<Rightarrow> pos list \<Rightarrow> (py_error + events) option" where
  "astar_events g end' visited_set s result entered dequeued =
     (if open_set s = []
      then Some (Inr (result\<lparr>nodes_explored := int (card visited_set)\<rparr>, entered, dequeued))
      else
        (case heappop (open_set s) of
           ((current_f, current), heap') \<Rightarrow>
             (let dequeued1 = dequeued @ [current] in
              if current \<in> visited_set
              then astar_events g end' visited_set (s\<lparr>open_set := heap'\<rparr>) result entered dequeued1
              else
                (let visited_set' = insert current visited_set;
                     result1 = result\<lparr>exploring := exploring result @ [current]\<rparr>
                 in if current = end'
                    then with_events entered dequeued1
                           (finish (came_from s) end' (int (card visited_set')) result1)
                    else (case get_neighbors g (fst current) (snd current) False of
                            Inl e \<Rightarrow> Some (Inl e)
                          | Inr neighbors \<Rightarrow>
                              (case astar_visit neighbors current end' visited_set'
                                      (s\<lparr>open_set := heap', a_visited := visited result1\<rparr>) of
                                 Inl e \<Rightarrow> Some (Inl e)
                               | Inr s' \<Rightarrow>
                                   astar_events g end' visited_set' s'
                                     (result1\<lparr>visited := a_visited s'\<rparr>)
                                     (entered @ map snd (drop (length heap') (open_set s')))
                                     dequeued1))))))"

definition astar_traced :: "Grid \<Rightarrow> pos \<Rightarrow> pos \<Rightarrow> (py_error + events) option" where
  "astar_traced g start end' =
     (case endpoint_invalid g start end' of
        Inl e \<Rightarrow> Some (Inl e)
      | Inr True \<Rightarrow> Some (Inr (PathfindingResult_init, [], []))
      | Inr False \<Rightarrow>
          astar_events g end' {}
            \<lparr>open_set = [(0, start)], came_from = [start \<mapsto> None], g_score = [start \<mapsto> 0],
             f_score = [start \<mapsto> heuristic (fst start) (snd start) (fst end') (snd end')],
             a_visited = []\<rparr>
            PathfindingResult_init [start] [])"

partial_function (option) dijkstra_events ::
  "Grid \<Rightarrow> pos \<Rightarrow> pos set \<Rightarrow> dijkstra_state \<Rightarrow> PathfindingResult \<Rightarrow>
     pos list \<Rightarrow> pos list \<Rightarrow> (py_error + events) option" where
  "dijkstra_events g end' visited_set s result entered dequeued =
     (if pq s = []
      then Some (Inr (result\<lparr>nodes_explored := int (card visited_set)\<rparr>, entered, dequeued))
      else
        (case heappop (pq s) of
           ((current_dist, current), heap') \<Rightarrow>
             (let dequeued1 = dequeued @ [current] in
              if current \<in> visited_set
              then dijkstra_events g end' visited_set (s\<lparr>pq := heap'\<rparr>) result entered dequeued1
              else
                (let visited_set' = insert current visited_set;
                     result1 = result\<lparr>exploring := exploring result @ [current]\<rparr>
                 in if current = end'
                    then with_events entered dequeued1
                           (finish (d_parent s) end' (int (card visited_set')) result1)
                    else (case get_neighbors g (fst current) (snd current) False of
                            Inl e \<Rightarrow> Some (Inl e)
                          | Inr neighbors \<Rightarrow>
                              (let s' = dijkstra_visit neighbors current current_dist visited_set'
                                          (s\<lparr>pq := heap', d_visited := visited result1\<rparr>)
                               in dijkstra_events g end' visited_set' s'
                                    (result1\<lparr>visited := d_visited s'\<rparr>)
                                    (entered @ map snd (drop (length heap') (pq s')))
                                    dequeued1))))))"

definition dijkstra_traced :: "Grid \<Rightarrow> pos \<Rightarrow> pos \<Rightarrow> (py_error + events) option" where
  "dijkstra_traced g start end' =
     (case endpoint_invalid g start end' of
        Inl e \<Rightarrow> Some (Inl e)
      | Inr True \<Rightarrow> Some (Inr (PathfindingResult_init, [], []))
      | Inr False \<Rightarrow>
          dijkstra_events g end' {}
            \<lparr>pq = [(0, start)], distances = [start \<mapsto> 0], d_parent = [start \<mapsto> None],
             d_visited = []\<rparr>
            PathfindingResult_init [start] [])"

declare bfs_events.simps [code] dfs_events.simps [code] astar_events.simps [code]
  dijkstra_events.simps [code]

text \<open>The first occurrences of the elements of a list, in their order.\<close>

definition firsts :: "'a list \<Rightarrow> 'a list" where
  "firsts xs = rev (remdups (rev xs))"

section \<open>Properties of the grid\<close>

lemma bindE_Inr [simp]: "bindE (Inr x) f = f x"
  by (simp add: bindE_def)

lemma bindE_Inl [simp]: "bindE (Inl e) f = Inl e"
  by (simp add: bindE_def)

lemma wf_grid_init: "wf_grid (Grid_init r c)"
  by (simp add: wf_grid_def Grid_init_def)

lemma grid_at_wf:
  assumes "wf_grid g" "in_bounds g r c"
  shows "grid_at g r c = Inr (grid g ! nat r ! nat c)"
proof -
  from assms have r: "nat r < length (grid g)" and "0 \<le> r" "0 \<le> c" "c < cols g"
    by (auto simp: wf_grid_def in_bounds_def)
  then have "length (grid g ! nat r) = nat (cols g)"
    using assms(1) by (simp add: wf_grid_def)
  with r \<open>0 \<le> r\<close> \<open>0 \<le> c\<close> \<open>c < cols g\<close> show ?thesis
    by (simp add: grid_at_def py_get_def py_index_def)
qed

text \<open>
  C10. \<open>Grid.get_cell\<close> is total on a grid whose array has the shape the constructor
  gives it: at every position it returns a cell type and raises nothing, and at a position
  outside \<open>[0, rows) \<times> [0, cols)\<close> the cell type is \<open>WALL\<close>.
\<close>

theorem get_cell_total:
  assumes "wf_grid g"
  shows "(\<exists>ct. get_cell g row col = Inr ct) \<and>
         (\<not> in_bounds g row col \<longrightarrow> get_cell g row col = Inr WALL)"
proof (cases "in_bounds g row col")
  case True
  then have "get_cell g row col = grid_at g row col"
    by (simp add: get_cell_def in_bounds_def)
  with grid_at_wf[OF assms True] True show ?thesis by simp
next
  case False
  then have "get_cell g row col = Inr WALL"
    by (auto simp: get_cell_def in_bounds_def)
  then show ?thesis by simp
qed

theorem get_cell_total_witness:
  "wf_grid (Grid_init 2 2) \<and> get_cell (Grid_init 2 2) 1 1 = Inr EMPTY \<and>
   get_cell (Grid_init 2 2) 2 0 = Inr WALL \<and> get_cell (Grid_init 2 2) (- 1) 1 = Inr WALL"
proof -
  have "get_cell (Grid_init 2 2) 1 1 = Inr EMPTY"
    by (simp add: Grid_init_def get_cell_def grid_at_def py_get_def py_index_def numeral_2_eq_2)
  moreover have "get_cell (Grid_init 2 2) 2 0 = Inr WALL"
    using get_cell_total[OF wf_grid_init, of 2 2 2 0]
    by (simp add: in_bounds_def Grid_init_def)
  moreover have "get_cell (Grid_init 2 2) (- 1) 1 = Inr WALL"
    using get_cell_total[OF wf_grid_init, of 2 2 "- 1" 1]
    by (simp add: in_bounds_def Grid_init_def)
  ultimately show ?thesis using wf_grid_init by simp
qed

lemma grid_put_wf:
  assumes "wf_grid g" "in_bounds g r c"
  shows "grid_put g r c v = Inr (g\<lparr>grid := (grid g)[nat r := (grid g ! nat r)[nat c := v]]\<rparr>)"
proof -
  from assms have r: "nat r < length (grid g)" and "0 \<le> r" "0 \<le> c" "c < cols g"
    by (auto simp: wf_grid_def in_bounds_def)
  then have "length (grid g ! nat r) = nat (cols g)"
    using assms(1) by (simp add: wf_grid_def)
  with r \<open>0 \<le> r\<close> \<open>0 \<le> c\<close> \<open>c < cols g\<close> show ?thesis
    by (simp add: grid_put_def py_get_def py_set_def py_index_def)
qed

lemma wf_grid_put:
  assumes "wf_grid g" "in_bounds g r c" "grid_put g r c v = Inr g'"
  shows "wf_grid g'" "rows g' = rows g" "cols g' = cols g" "start_pos g' = start_pos g"
    "end_pos g' = end_pos g" "in_bounds g' = in_bounds g"
proof -
  from assms have g': "g' = g\<lparr>grid := (grid g)[nat r := (grid g ! nat r)[nat c := v]]\<rparr>"
    by (simp add: grid_put_wf)
  from assms have r: "nat r < length (grid g)"
    by (auto simp: wf_grid_def in_bounds_def)
  show "wf_grid g'" using assms(1) r unfolding g' wf_grid_def
    by (auto dest!: set_update_subset_insert[THEN subsetD])
  show "rows g' = rows g" "cols g' = cols g" "start_pos g' = start_pos g"
    "end_pos g' = end_pos g" by (simp_all add: g')
  then show "in_bounds g' = in_bounds g" by (simp add: in_bounds_def fun_eq_iff)
qed

lemma grid_at_put:
  assumes "wf_grid g" "in_bounds g r c" "in_bounds g r' c'" "grid_put g r c v = Inr g'"
  shows "grid_at g' r' c' = (if r' = r \<and> c' = c then Inr v else grid_at g r' c')"
proof -
  from assms have g': "g' = g\<lparr>grid := (grid g)[nat r := (grid g ! nat r)[nat c := v]]\<rparr>"
    by (simp add: grid_put_wf)
  have wf': "wf_grid g'" and ib: "in_bounds g' r' c'"
    using wf_grid_put[OF assms(1,2,4)] assms(3) by auto
  from assms have r: "nat r < length (grid g)" "nat r' < length (grid g)" "0 \<le> r" "0 \<le> r'" "0 \<le> c" "0 \<le> c'"
    by (auto simp: wf_grid_def in_bounds_def)
  then have "length (grid g ! nat r) = nat (cols g)"
    using assms(1) by (simp add: wf_grid_def)
  then have c: "nat c < length (grid g ! nat r)" "nat c' < length (grid g ! nat r)"
    using assms(2,3) by (auto simp: in_bounds_def)
  show ?thesis
    unfolding grid_at_wf[OF wf' ib] grid_at_wf[OF assms(1,3)]
    using r c by (auto simp: g' nth_list_update)
qed

lemma grid_at_start_pos_update [simp]: "grid_at (g\<lparr>start_pos := p\<rparr>) = grid_at g"
  by (simp add: grid_at_def fun_eq_iff)

lemma grid_at_end_pos_update [simp]: "grid_at (g\<lparr>end_pos := p\<rparr>) = grid_at g"
  by (simp add: grid_at_def fun_eq_iff)

lemma in_bounds_start_pos_update [simp]: "in_bounds (g\<lparr>start_pos := p\<rparr>) = in_bounds g"
  by (simp add: in_bounds_def fun_eq_iff)

lemma in_bounds_end_pos_update [simp]: "in_bounds (g\<lparr>end_pos := p\<rparr>) = in_bounds g"
  by (simp add: in_bounds_def fun_eq_iff)

lemma wf_grid_start_pos_update [simp]: "wf_grid (g\<lparr>start_pos := p\<rparr>) = wf_grid g"
  by (simp add: wf_grid_def)

lemma wf_grid_end_pos_update [simp]: "wf_grid (g\<lparr>end_pos := p\<rparr>) = wf_grid g"
  by (simp add: wf_grid_def)

text \<open>Introduction and destruction rules of the invariant, one fact per conjunct.\<close>

lemma grid_invI:
  assumes "wf_grid g"
    and "\<And>r c. in_bounds g r c \<Longrightarrow> grid_at g r c = Inr START \<Longrightarrow> start_pos g = Some (r, c)"
    and "\<And>r c. in_bounds g r c \<Longrightarrow> grid_at g r c = Inr END \<Longrightarrow> end_pos g = Some (r, c)"
    and "\<And>r c. start_pos g = Some (r, c) \<Longrightarrow> in_bounds g r c"
    and "\<And>r c. end_pos g = Some (r, c) \<Longrightarrow> in_bounds g r c"
  shows "grid_inv g"
  unfolding grid_inv_def using assms by blast

lemma grid_invD:
  assumes "grid_inv g"
  shows "wf_grid g"
    and "\<And>r c. in_bounds g r c \<Longrightarrow> grid_at g r c = Inr START \<Longrightarrow> start_pos g = Some (r, c)"
    and "\<And>r c. in_bounds g r c \<Longrightarrow> grid_at g r c = Inr END \<Longrightarrow> end_pos g = Some (r, c)"
    and "\<And>r c. start_pos g = Some (r, c) \<Longrightarrow> in_bounds g r c"
    and "\<And>r c. end_pos g = Some (r, c) \<Longrightarrow> in_bounds g r c"
  using assms unfolding grid_inv_def by blast+



lemma clear_old_start_ok:
  assumes "grid_inv g"
  shows "\<exists>g1. clear_old_start g = Inr g1 \<and> wf_grid g1 \<and> in_bounds g1 = in_bounds g \<and>
           start_pos g1 = start_pos g \<and> end_pos g1 = end_pos g \<and>
           (\<forall>r c. in_bounds g r c \<longrightarrow>
              grid_at g1 r c = (if grid_at g r c = Inr START then Inr EMPTY else grid_at g r c))"
proof (cases "start_pos g")
  case None
  have "in_bounds g r c \<Longrightarrow> grid_at g r c \<noteq> Inr START" for r c
    using grid_invD(2)[OF assms, of r c] None by auto
  moreover have "clear_old_start g = Inr g"
    using None by (simp add: clear_old_start_def)
  ultimately show ?thesis using grid_invD(1)[OF assms] by simp
next
  case (Some p)
  obtain orow ocol where p: "p = (orow, ocol)" by (cases p)
  have wf: "wf_grid g" by (rule grid_invD(1)[OF assms])
  have ib: "in_bounds g orow ocol"
    using grid_invD(4,5)[OF assms] Some p by blast
  have only: "r = orow \<and> c = ocol" if "in_bounds g r c" "grid_at g r c = Inr START" for r c
    using grid_invD(2)[OF assms that] Some p by simp
  show ?thesis
  proof (cases "grid_at g orow ocol = Inr START")
    case True
    obtain g1 where put: "grid_put g orow ocol EMPTY = Inr g1"
      using grid_put_wf[OF wf ib] by blast
    have "clear_old_start g = Inr g1"
      using Some p True put by (simp add: clear_old_start_def)
    moreover have "grid_at g1 r c = (if grid_at g r c = Inr START then Inr EMPTY else grid_at g r c)"
      if "in_bounds g r c" for r c
    proof (cases "r = orow \<and> c = ocol")
      case True
      with \<open>grid_at g orow ocol = Inr START\<close> grid_at_put[OF wf ib that put] show ?thesis by simp
    next
      case False
      with only[OF that] have "grid_at g r c \<noteq> Inr START" by blast
      with False grid_at_put[OF wf ib that put] show ?thesis by auto
    qed
    ultimately show ?thesis using wf_grid_put[OF wf ib put] by simp
  next
    case False
    obtain v where v: "grid_at g orow ocol = Inr v" using grid_at_wf[OF wf ib] by blast
    have "clear_old_start g = Inr g"
      using Some p False v by (simp add: clear_old_start_def)
    moreover have "in_bounds g r c \<Longrightarrow> grid_at g r c \<noteq> Inr START" for r c
      using only[of r c] False by blast
    ultimately show ?thesis using wf by simp
  qed
qed

lemma clear_old_end_ok:
  assumes "grid_inv g"
  shows "\<exists>g1. clear_old_end g = Inr g1 \<and> wf_grid g1 \<and> in_bounds g1 = in_bounds g \<and>
           start_pos g1 = start_pos g \<and> end_pos g1 = end_pos g \<and>
           (\<forall>r c. in_bounds g r c \<longrightarrow>
              grid_at g1 r c = (if grid_at g r c = Inr END then Inr EMPTY else grid_at g r c))"
proof (cases "end_pos g")
  case None
  have "in_bounds g r c \<Longrightarrow> grid_at g r c \<noteq> Inr END" for r c
    using grid_invD(3)[OF assms, of r c] None by auto
  moreover have "clear_old_end g = Inr g"
    using None by (simp add: clear_old_end_def)
  ultimately show ?thesis using grid_invD(1)[OF assms] by simp
next
  case (Some p)
  obtain orow ocol where p: "p = (orow, ocol)" by (cases p)
  have wf: "wf_grid g" by (rule grid_invD(1)[OF assms])
  have ib: "in_bounds g orow ocol"
    using grid_invD(4,5)[OF assms] Some p by blast
  have only: "r = orow \<and> c = ocol" if "in_bounds g r c" "grid_at g r c = Inr END" for r c
    using grid_invD(3)[OF assms that] Some p by simp
  show ?thesis
  proof (cases "grid_at g orow ocol = Inr END")
    case True
    obtain g1 where put: "grid_put g orow ocol EMPTY = Inr g1"
      using grid_put_wf[OF wf ib] by blast
    have "clear_old_end g = Inr g1"
      using Some p True put by (simp add: clear_old_end_def)
    moreover have "grid_at g1 r c = (if grid_at g r c = Inr END then Inr EMPTY else grid_at g r c)"
      if "in_bounds g r c" for r c
    proof (cases "r = orow \<and> c = ocol")
      case True
      with \<open>grid_at g orow ocol = Inr END\<close> grid_at_put[OF wf ib that put] show ?thesis by simp
    next
      case False
      with only[OF that] have "grid_at g r c \<noteq> Inr END" by blast
      with False grid_at_put[OF wf ib that put] show ?thesis by auto
    qed
    ultimately show ?thesis using wf_grid_put[OF wf ib put] by simp
  next
    case False
    obtain v where v: "grid_at g orow ocol = Inr v" using grid_at_wf[OF wf ib] by blast
    have "clear_old_end g = Inr g"
      using Some p False v by (simp add: clear_old_end_def)
    moreover have "in_bounds g r c \<Longrightarrow> grid_at g r c \<noteq> Inr END" for r c
      using only[of r c] False by blast
    ultimately show ?thesis using wf by simp
  qed
qed


lemma final_assign_keep:
  assumes "wf_grid g'" "in_bounds g' r c" "grid_at g' r c = Inr START \<or> grid_at g' r c = Inr END"
  shows "bindE (grid_at g' r c) (\<lambda>cur.
          if cur \<noteq> START \<and> cur \<noteq> END then grid_put g' r c ct else Inr g') = Inr g'"
  using assms(3) by auto

lemma set_cell_START_ok:
  assumes inv: "grid_inv g" and ib: "in_bounds g r c"
  shows "\<exists>g'. set_cell g r c START = Inr g' \<and> grid_inv g' \<and> in_bounds g' = in_bounds g \<and>
           start_pos g' = Some (r, c) \<and> end_pos g' = end_pos g \<and>
           grid_at g' r c = (if grid_at g r c = Inr END then Inr END else Inr START) \<and>
           (\<forall>r' c'. in_bounds g r' c' \<longrightarrow> \<not> (r' = r \<and> c' = c) \<longrightarrow>
              grid_at g' r' c' = (if grid_at g r' c' = Inr START then Inr EMPTY else grid_at g r' c'))"
proof -
  obtain g1 where g1: "clear_old_start g = Inr g1" and wf1: "wf_grid g1"
      and ib1: "in_bounds g1 = in_bounds g"
      and sp1: "start_pos g1 = start_pos g" and ep1: "end_pos g1 = end_pos g"
      and at1: "\<And>r c. in_bounds g r c \<Longrightarrow>
              grid_at g1 r c = (if grid_at g r c = Inr START then Inr EMPTY else grid_at g r c)"
    using clear_old_start_ok[OF inv] by blast
  define g2 where "g2 = g1\<lparr>start_pos := Some (r, c)\<rparr>"
  have wf2: "wf_grid g2" and ib2: "in_bounds g2 = in_bounds g" and at2: "grid_at g2 = grid_at g1"
    and sp2: "start_pos g2 = Some (r, c)" and ep2: "end_pos g2 = end_pos g"
    using wf1 ib1 ep1 by (simp_all add: g2_def)
  have ib2': "in_bounds g2 r c" using ib ib2 by simp
  have no_start1: "grid_at g1 r' c' \<noteq> Inr START" if "in_bounds g r' c'" for r' c'
    using at1[OF that] by (simp split: if_splits)
  have end1: "grid_at g1 r' c' = Inr END \<longleftrightarrow> grid_at g r' c' = Inr END" if "in_bounds g r' c'" for r' c'
    using at1[OF that] by (simp split: if_splits)
  show ?thesis
  proof (cases "grid_at g r c = Inr END")
    case True
    then have cur: "grid_at g2 r c = Inr END" using end1[OF ib] at2 by simp
    have "set_cell_branch g r c START = Inr g2"
      using g1 cur by (simp add: set_cell_branch_def g2_def[symmetric] at2)
    then have sc: "set_cell g r c START = Inr g2"
      using ib cur by (simp add: set_cell_def in_bounds_def)
    have "grid_inv g2"
    proof (rule grid_invI)
      show "wf_grid g2" by (rule wf2)
    next
      fix r' c' assume "in_bounds g2 r' c'" "grid_at g2 r' c' = Inr START"
      then show "start_pos g2 = Some (r', c')" using no_start1[of r' c'] ib2 at2 by simp
    next
      fix r' c' assume "in_bounds g2 r' c'" "grid_at g2 r' c' = Inr END"
      then have "in_bounds g r' c'" "grid_at g r' c' = Inr END" using ib2 at2 end1[of r' c'] by simp_all
      then show "end_pos g2 = Some (r', c')" using grid_invD(3)[OF inv] ep2 by simp
    next
      fix r' c' assume "start_pos g2 = Some (r', c')"
      then show "in_bounds g2 r' c'" using sp2 ib ib2 by simp
    next
      fix r' c' assume "end_pos g2 = Some (r', c')"
      then show "in_bounds g2 r' c'" using ep2 grid_invD(5)[OF inv] ib2 by simp
    qed
    moreover have "grid_at g2 r c = (if grid_at g r c = Inr END then Inr END else Inr START)"
      using cur True by simp
    moreover have "\<forall>r' c'. in_bounds g r' c' \<longrightarrow> \<not> (r' = r \<and> c' = c) \<longrightarrow>
              grid_at g2 r' c' = (if grid_at g r' c' = Inr START then Inr EMPTY else grid_at g r' c')"
      using at1 at2 by simp
    ultimately show ?thesis using sc ib2 sp2 ep2 by blast
  next
    case False
    then have cur: "grid_at g2 r c \<noteq> Inr END" using end1[OF ib] at2 by simp
    obtain g3 where put: "grid_put g2 r c START = Inr g3"
      using grid_put_wf[OF wf2 ib2'] by blast
    note p3 = wf_grid_put[OF wf2 ib2' put]
    have at3: "grid_at g3 r' c' = (if r' = r \<and> c' = c then Inr START else grid_at g1 r' c')"
      if "in_bounds g r' c'" for r' c'
      using grid_at_put[OF wf2 ib2' _ put, of r' c'] ib2 at2 that by simp
    obtain v where v: "grid_at g2 r c = Inr v" using grid_at_wf[OF wf2 ib2'] by blast
    have "set_cell_branch g r c START = Inr g3"
      using g1 cur put v by (simp add: set_cell_branch_def g2_def[symmetric] at2)
    then have sc: "set_cell g r c START = Inr g3"
      using ib at3[OF ib] by (simp add: set_cell_def in_bounds_def)
    have ib3: "in_bounds g3 = in_bounds g" using p3(6) ib2 by simp
    have "grid_inv g3"
    proof (rule grid_invI)
      show "wf_grid g3" by (rule p3(1))
    next
      fix r' c' assume a: "in_bounds g3 r' c'" "grid_at g3 r' c' = Inr START"
      then have b: "in_bounds g r' c'" using ib3 by simp
      have "r' = r \<and> c' = c"
      proof (rule ccontr)
        assume "\<not> (r' = r \<and> c' = c)"
        then have "grid_at g3 r' c' = grid_at g1 r' c'" using at3[OF b] by auto
        then show False using a(2) no_start1[OF b] by simp
      qed
      then show "start_pos g3 = Some (r', c')" using p3(4) sp2 by simp
    next
      fix r' c' assume a: "in_bounds g3 r' c'" "grid_at g3 r' c' = Inr END"
      then have b: "in_bounds g r' c'" using ib3 by simp
      have "grid_at g1 r' c' = Inr END" using at3[OF b] a(2) by (auto split: if_splits)
      then have "grid_at g r' c' = Inr END" using end1[OF b] by simp
      then show "end_pos g3 = Some (r', c')" using grid_invD(3)[OF inv b] p3(5) ep2 by simp
    next
      fix r' c' assume "start_pos g3 = Some (r', c')"
      then show "in_bounds g3 r' c'" using p3(4) sp2 ib ib3 by simp
    next
      fix r' c' assume "end_pos g3 = Some (r', c')"
      then show "in_bounds g3 r' c'" using p3(5) ep2 grid_invD(5)[OF inv] ib3 by simp
    qed
    moreover have "grid_at g3 r c = (if grid_at g r c = Inr END then Inr END else Inr START)"
      using at3[OF ib] False by simp
    moreover have "\<forall>r' c'. in_bounds g r' c' \<longrightarrow> \<not> (r' = r \<and> c' = c) \<longrightarrow>
              grid_at g3 r' c' = (if grid_at g r' c' = Inr START then Inr EMPTY else grid_at g r' c')"
    proof (intro allI impI)
      fix r' c' assume b: "in_bounds g r' c'" and ne: "\<not> (r' = r \<and> c' = c)"
      have "grid_at g3 r' c' = grid_at g1 r' c'" using at3[OF b] ne by auto
      then show "grid_at g3 r' c' = (if grid_at g r' c' = Inr START then Inr EMPTY else grid_at g r' c')"
        using at1[OF b] by simp
    qed
    moreover have "start_pos g3 = Some (r, c)" "end_pos g3 = end_pos g"
      using p3(4,5) sp2 ep2 by simp_all
    ultimately show ?thesis using sc ib3 by blast
  qed
qed


lemma set_cell_END_ok:
  assumes inv: "grid_inv g" and ib: "in_bounds g r c"
  shows "\<exists>g'. set_cell g r c END = Inr g' \<and> grid_inv g' \<and> in_bounds g' = in_bounds g \<and>
           end_pos g' = Some (r, c) \<and> start_pos g' = start_pos g \<and>
           grid_at g' r c = (if grid_at g r c = Inr START then Inr START else Inr END) \<and>
           (\<forall>r' c'. in_bounds g r' c' \<longrightarrow> \<not> (r' = r \<and> c' = c) \<longrightarrow>
              grid_at g' r' c' = (if grid_at g r' c' = Inr END then Inr EMPTY else grid_at g r' c'))"
proof -
  obtain g1 where g1: "clear_old_end g = Inr g1" and wf1: "wf_grid g1"
      and ib1: "in_bounds g1 = in_bounds g"
      and sp1: "start_pos g1 = start_pos g" and ep1: "end_pos g1 = end_pos g"
      and at1: "\<And>r c. in_bounds g r c \<Longrightarrow>
              grid_at g1 r c = (if grid_at g r c = Inr END then Inr EMPTY else grid_at g r c)"
    using clear_old_end_ok[OF inv] by blast
  define g2 where "g2 = g1\<lparr>end_pos := Some (r, c)\<rparr>"
  have wf2: "wf_grid g2" and ib2: "in_bounds g2 = in_bounds g" and at2: "grid_at g2 = grid_at g1"
    and ep2: "end_pos g2 = Some (r, c)" and sp2: "start_pos g2 = start_pos g"
    using wf1 ib1 sp1 by (simp_all add: g2_def)
  have ib2': "in_bounds g2 r c" using ib ib2 by simp
  have no_end1: "grid_at g1 r' c' \<noteq> Inr END" if "in_bounds g r' c'" for r' c'
    using at1[OF that] by (simp split: if_splits)
  have start1: "grid_at g1 r' c' = Inr START \<longleftrightarrow> grid_at g r' c' = Inr START" if "in_bounds g r' c'" for r' c'
    using at1[OF that] by (simp split: if_splits)
  have br: "set_cell_branch g r c END = Inr g2"
    using g1 by (simp add: set_cell_branch_def g2_def[symmetric])
  show ?thesis
  proof (cases "grid_at g r c = Inr START")
    case True
    then have cur: "grid_at g2 r c = Inr START" using start1[OF ib] at2 by simp
    have sc: "set_cell g r c END = Inr g2"
      using ib cur br by (simp add: set_cell_def in_bounds_def)
    have "grid_inv g2"
    proof (rule grid_invI)
      show "wf_grid g2" by (rule wf2)
    next
      fix r' c' assume "in_bounds g2 r' c'" "grid_at g2 r' c' = Inr END"
      then show "end_pos g2 = Some (r', c')" using no_end1[of r' c'] ib2 at2 by simp
    next
      fix r' c' assume "in_bounds g2 r' c'" "grid_at g2 r' c' = Inr START"
      then have "in_bounds g r' c'" "grid_at g r' c' = Inr START" using ib2 at2 start1[of r' c'] by simp_all
      then show "start_pos g2 = Some (r', c')" using grid_invD(2)[OF inv] sp2 by simp
    next
      fix r' c' assume "end_pos g2 = Some (r', c')"
      then show "in_bounds g2 r' c'" using ep2 ib ib2 by simp
    next
      fix r' c' assume "start_pos g2 = Some (r', c')"
      then show "in_bounds g2 r' c'" using sp2 grid_invD(4)[OF inv] ib2 by simp
    qed
    moreover have "grid_at g2 r c = (if grid_at g r c = Inr START then Inr START else Inr END)"
      using cur True by simp
    moreover have "\<forall>r' c'. in_bounds g r' c' \<longrightarrow> \<not> (r' = r \<and> c' = c) \<longrightarrow>
              grid_at g2 r' c' = (if grid_at g r' c' = Inr END then Inr EMPTY else grid_at g r' c')"
      using at1 at2 by simp
    ultimately show ?thesis using sc ib2 sp2 ep2 by blast
  next
    case False
    then have cur: "grid_at g2 r c \<noteq> Inr START" "grid_at g2 r c \<noteq> Inr END"
      using start1[OF ib] no_end1[OF ib] at2 by simp_all
    obtain g3 where put: "grid_put g2 r c END = Inr g3"
      using grid_put_wf[OF wf2 ib2'] by blast
    note p3 = wf_grid_put[OF wf2 ib2' put]
    have at3: "grid_at g3 r' c' = (if r' = r \<and> c' = c then Inr END else grid_at g1 r' c')"
      if "in_bounds g r' c'" for r' c'
      using grid_at_put[OF wf2 ib2' _ put, of r' c'] ib2 at2 that by simp
    obtain v where v: "grid_at g2 r c = Inr v" using grid_at_wf[OF wf2 ib2'] by blast
    have sc: "set_cell g r c END = Inr g3"
      using ib br cur v put by (simp add: set_cell_def in_bounds_def)
    have ib3: "in_bounds g3 = in_bounds g" using p3(6) ib2 by simp
    have "grid_inv g3"
    proof (rule grid_invI)
      show "wf_grid g3" by (rule p3(1))
    next
      fix r' c' assume a: "in_bounds g3 r' c'" "grid_at g3 r' c' = Inr END"
      then have b: "in_bounds g r' c'" using ib3 by simp
      have "r' = r \<and> c' = c"
      proof (rule ccontr)
        assume "\<not> (r' = r \<and> c' = c)"
        then have "grid_at g3 r' c' = grid_at g1 r' c'" using at3[OF b] by auto
        then show False using a(2) no_end1[OF b] by simp
      qed
      then show "end_pos g3 = Some (r', c')" using p3(5) ep2 by simp
    next
      fix r' c' assume a: "in_bounds g3 r' c'" "grid_at g3 r' c' = Inr START"
      then have b: "in_bounds g r' c'" using ib3 by simp
      have "grid_at g1 r' c' = Inr START" using at3[OF b] a(2) by (auto split: if_splits)
      then have "grid_at g r' c' = Inr START" using start1[OF b] by simp
      then show "start_pos g3 = Some (r', c')" using grid_invD(2)[OF inv b] p3(4) sp2 by simp
    next
      fix r' c' assume "end_pos g3 = Some (r', c')"
      then show "in_bounds g3 r' c'" using p3(5) ep2 ib ib3 by simp
    next
      fix r' c' assume "start_pos g3 = Some (r', c')"
      then show "in_bounds g3 r' c'" using p3(4) sp2 grid_invD(4)[OF inv] ib3 by simp
    qed
    moreover have "grid_at g3 r c = (if grid_at g r c = Inr START then Inr START else Inr END)"
      using at3[OF ib] False by simp
    moreover have "\<forall>r' c'. in_bounds g r' c' \<longrightarrow> \<not> (r' = r \<and> c' = c) \<longrightarrow>
              grid_at g3 r' c' = (if grid_at g r' c' = Inr END then Inr EMPTY else grid_at g r' c')"
    proof (intro allI impI)
      fix r' c' assume b: "in_bounds g r' c'" and ne: "\<not> (r' = r \<and> c' = c)"
      have "grid_at g3 r' c' = grid_at g1 r' c'" using at3[OF b] ne by auto
      then show "grid_at g3 r' c' = (if grid_at g r' c' = Inr END then Inr EMPTY else grid_at g r' c')"
        using at1[OF b] by simp
    qed
    moreover have "end_pos g3 = Some (r, c)" "start_pos g3 = start_pos g"
      using p3(4,5) sp2 ep2 by simp_all
    ultimately show ?thesis using sc ib3 by blast
  qed
qed


lemma set_cell_WALL_ok:
  assumes inv: "grid_inv g" and ib: "in_bounds g r c"
  shows "\<exists>g'. set_cell g r c WALL = Inr g' \<and> grid_inv g' \<and> in_bounds g' = in_bounds g \<and>
           start_pos g' = (if grid_at g r c = Inr START then None else start_pos g) \<and>
           end_pos g' = (if grid_at g r c = Inr END then None else end_pos g) \<and>
           grid_at g' r c = Inr WALL \<and>
           (\<forall>r' c'. in_bounds g r' c' \<longrightarrow> \<not> (r' = r \<and> c' = c) \<longrightarrow>
              grid_at g' r' c' = grid_at g r' c')"
proof -
  have wf: "wf_grid g" by (rule grid_invD(1)[OF inv])
  obtain v where v: "grid_at g r c = Inr v" using grid_at_wf[OF wf ib] by blast
  define g0 where "g0 = (if v = START then g\<lparr>start_pos := None\<rparr>
                    else if v = END then g\<lparr>end_pos := None\<rparr> else g)"
  have wf0: "wf_grid g0" and ib0: "in_bounds g0 = in_bounds g" and at0: "grid_at g0 = grid_at g"
    and sp0: "start_pos g0 = (if v = START then None else start_pos g)"
    and ep0: "end_pos g0 = (if v = END then None else end_pos g)"
    using wf by (auto simp: g0_def)
  have ib0': "in_bounds g0 r c" using ib ib0 by simp
  obtain g1 where put: "grid_put g0 r c WALL = Inr g1"
    using grid_put_wf[OF wf0 ib0'] by blast
  note p1 = wf_grid_put[OF wf0 ib0' put]
  have ib1: "in_bounds g1 = in_bounds g" using p1(6) ib0 by simp
  have ib1': "in_bounds g1 r c" using ib ib1 by simp
  have at1: "grid_at g1 r' c' = (if r' = r \<and> c' = c then Inr WALL else grid_at g r' c')"
    if "in_bounds g r' c'" for r' c'
    using grid_at_put[OF wf0 ib0' _ put, of r' c'] ib0 at0 that by simp
  have br: "set_cell_branch g r c WALL = Inr g1"
    using v put by (simp add: set_cell_branch_def g0_def[symmetric])
  obtain g2 where put2: "grid_put g1 r c WALL = Inr g2"
    using grid_put_wf[OF p1(1) ib1'] by blast
  note p2 = wf_grid_put[OF p1(1) ib1' put2]
  have ib2: "in_bounds g2 = in_bounds g" using p2(6) ib1 by simp
  have at2: "grid_at g2 r' c' = (if r' = r \<and> c' = c then Inr WALL else grid_at g r' c')"
    if "in_bounds g r' c'" for r' c'
    using grid_at_put[OF p1(1) ib1' _ put2, of r' c'] ib1 at1[OF that] that by simp
  have sc: "set_cell g r c WALL = Inr g2"
    using ib br at1[OF ib] put2 by (simp add: set_cell_def in_bounds_def)
  have sp2: "start_pos g2 = (if v = START then None else start_pos g)"
    and ep2: "end_pos g2 = (if v = END then None else end_pos g)"
    using p2(4,5) p1(4,5) sp0 ep0 by simp_all
  have other: "grid_at g2 r' c' = grid_at g r' c'" if "in_bounds g r' c'" "\<not> (r' = r \<and> c' = c)" for r' c'
    using at2[OF that(1)] that(2) by auto
  have "grid_inv g2"
  proof (rule grid_invI)
    show "wf_grid g2" by (rule p2(1))
  next
    fix r' c' assume a: "in_bounds g2 r' c'" "grid_at g2 r' c' = Inr START"
    then have b: "in_bounds g r' c'" using ib2 by simp
    have ne: "\<not> (r' = r \<and> c' = c)" using at2[OF b] a(2) by auto
    then have st: "grid_at g r' c' = Inr START" using other[OF b] a(2) by simp
    then have "start_pos g = Some (r', c')" using grid_invD(2)[OF inv b] by simp
    moreover have "v \<noteq> START"
    proof
      assume "v = START"
      then have "start_pos g = Some (r, c)" using grid_invD(2)[OF inv ib] v by simp
      with \<open>start_pos g = Some (r', c')\<close> ne show False by simp
    qed
    ultimately show "start_pos g2 = Some (r', c')" using sp2 by simp
  next
    fix r' c' assume a: "in_bounds g2 r' c'" "grid_at g2 r' c' = Inr END"
    then have b: "in_bounds g r' c'" using ib2 by simp
    have ne: "\<not> (r' = r \<and> c' = c)" using at2[OF b] a(2) by auto
    then have st: "grid_at g r' c' = Inr END" using other[OF b] a(2) by simp
    then have "end_pos g = Some (r', c')" using grid_invD(3)[OF inv b] by simp
    moreover have "v \<noteq> END"
    proof
      assume "v = END"
      then have "end_pos g = Some (r, c)" using grid_invD(3)[OF inv ib] v by simp
      with \<open>end_pos g = Some (r', c')\<close> ne show False by simp
    qed
    ultimately show "end_pos g2 = Some (r', c')" using ep2 by simp
  next
    fix r' c' assume "start_pos g2 = Some (r', c')"
    then have "start_pos g = Some (r', c')" using sp2 by (simp split: if_splits)
    then show "in_bounds g2 r' c'" using grid_invD(4)[OF inv] ib2 by simp
  next
    fix r' c' assume "end_pos g2 = Some (r', c')"
    then have "end_pos g = Some (r', c')" using ep2 by (simp split: if_splits)
    then show "in_bounds g2 r' c'" using grid_invD(5)[OF inv] ib2 by simp
  qed
  moreover have "grid_at g2 r c = Inr WALL" using at2[OF ib] by simp
  moreover have "start_pos g2 = (if grid_at g r c = Inr START then None else start_pos g)"
    "end_pos g2 = (if grid_at g r c = Inr END then None else end_pos g)"
    using sp2 ep2 v by simp_all
  ultimately show ?thesis using sc ib2 other by blast
qed

lemma set_cell_other_ok:
  assumes inv: "grid_inv g" and ib: "in_bounds g r c"
    and ct: "ct \<noteq> WALL" "ct \<noteq> START" "ct \<noteq> END"
  shows "\<exists>g'. set_cell g r c ct = Inr g' \<and> grid_inv g' \<and> in_bounds g' = in_bounds g \<and>
           start_pos g' = start_pos g \<and> end_pos g' = end_pos g \<and>
           grid_at g' r c = (if grid_at g r c = Inr START \<or> grid_at g r c = Inr END
                              then grid_at g r c else Inr ct) \<and>
           (\<forall>r' c'. in_bounds g r' c' \<longrightarrow> \<not> (r' = r \<and> c' = c) \<longrightarrow>
              grid_at g' r' c' = grid_at g r' c')"
proof -
  have wf: "wf_grid g" by (rule grid_invD(1)[OF inv])
  obtain v where v: "grid_at g r c = Inr v" using grid_at_wf[OF wf ib] by blast
  have br: "set_cell_branch g r c ct = Inr g"
    using ct by (simp add: set_cell_branch_def)
  show ?thesis
  proof (cases "v = START \<or> v = END")
    case True
    then have "set_cell g r c ct = Inr g"
      using ib br v by (auto simp: set_cell_def in_bounds_def)
    then show ?thesis using inv v True by auto
  next
    case False
    obtain g2 where put2: "grid_put g r c ct = Inr g2"
      using grid_put_wf[OF wf ib] by blast
    note p2 = wf_grid_put[OF wf ib put2]
    have at2: "grid_at g2 r' c' = (if r' = r \<and> c' = c then Inr ct else grid_at g r' c')"
      if "in_bounds g r' c'" for r' c'
      using grid_at_put[OF wf ib that put2] by simp
    have other: "grid_at g2 r' c' = grid_at g r' c'" if "in_bounds g r' c'" "\<not> (r' = r \<and> c' = c)" for r' c'
      using at2[OF that(1)] that(2) by auto
    have sc: "set_cell g r c ct = Inr g2"
      using ib br v False put2 by (simp add: set_cell_def in_bounds_def)
    have "grid_inv g2"
    proof (rule grid_invI)
      show "wf_grid g2" by (rule p2(1))
    next
      fix r' c' assume a: "in_bounds g2 r' c'" "grid_at g2 r' c' = Inr START"
      then have b: "in_bounds g r' c'" using p2(6) by simp
      have ne: "\<not> (r' = r \<and> c' = c)" using at2[OF b] a(2) ct by auto
      then have st: "grid_at g r' c' = Inr START" using other[OF b] a(2) by simp
      then show "start_pos g2 = Some (r', c')" using grid_invD(2)[OF inv b] p2(4) by simp
    next
      fix r' c' assume a: "in_bounds g2 r' c'" "grid_at g2 r' c' = Inr END"
      then have b: "in_bounds g r' c'" using p2(6) by simp
      have ne: "\<not> (r' = r \<and> c' = c)" using at2[OF b] a(2) ct by auto
      then have st: "grid_at g r' c' = Inr END" using other[OF b] a(2) by simp
      then show "end_pos g2 = Some (r', c')" using grid_invD(3)[OF inv b] p2(5) by simp
    next
      fix r' c' assume "start_pos g2 = Some (r', c')"
      then show "in_bounds g2 r' c'" using grid_invD(4)[OF inv] p2(4,6) by simp
    next
      fix r' c' assume "end_pos g2 = Some (r', c')"
      then show "in_bounds g2 r' c'" using grid_invD(5)[OF inv] p2(5,6) by simp
    qed
    moreover have "grid_at g2 r c = (if grid_at g r c = Inr START \<or> grid_at g r c = Inr END
                              then grid_at g r c else Inr ct)"
      using at2[OF ib] v False by simp
    ultimately show ?thesis using sc p2(4,5,6) other by blast
  qed
qed

lemma grid_inv_init: "grid_inv (Grid_init R C)"
proof (rule grid_invI)
  show "wf_grid (Grid_init R C)" by (rule wf_grid_init)
next
  fix r c assume "in_bounds (Grid_init R C) r c"
  then have "grid_at (Grid_init R C) r c = Inr EMPTY"
    using grid_at_wf[OF wf_grid_init, of R C r c] by (simp add: Grid_init_def in_bounds_def)
  then show "grid_at (Grid_init R C) r c = Inr START \<Longrightarrow> start_pos (Grid_init R C) = Some (r, c)"
    "grid_at (Grid_init R C) r c = Inr END \<Longrightarrow> end_pos (Grid_init R C) = Some (r, c)"
    by simp_all
qed (simp_all add: Grid_init_def)

lemma set_cell_inv:
  assumes "grid_inv g"
  shows "\<exists>g'. set_cell g r c ct = Inr g' \<and> grid_inv g'"
proof (cases "in_bounds g r c")
  case False
  then have "set_cell g r c ct = Inr g" by (auto simp: set_cell_def in_bounds_def)
  with assms show ?thesis by simp
next
  case True
  consider "ct = WALL" | "ct = START" | "ct = END" | "ct \<noteq> WALL" "ct \<noteq> START" "ct \<noteq> END"
    by blast
  then show ?thesis
  proof cases
    case 1 then show ?thesis using set_cell_WALL_ok[OF assms True] by blast
  next
    case 2 then show ?thesis using set_cell_START_ok[OF assms True] by blast
  next
    case 3 then show ?thesis using set_cell_END_ok[OF assms True] by blast
  next
    case 4 then show ?thesis using set_cell_other_ok[OF assms True 4] by blast
  qed
qed

lemma set_cells_inv:
  "grid_inv g \<Longrightarrow> \<exists>g'. set_cells g calls = Inr g' \<and> grid_inv g'"
proof (induction calls arbitrary: g)
  case Nil
  then show ?case by simp
next
  case (Cons call calls)
  obtain r c ct where call: "call = (r, c, ct)" by (cases call)
  obtain g1 where "set_cell g r c ct = Inr g1" "grid_inv g1"
    using set_cell_inv[OF Cons.prems] by blast
  then show ?case using Cons.IH[of g1] call by simp
qed


lemma all_positions_in_bounds: "(r, c) \<in> set (all_positions g) \<longleftrightarrow> in_bounds g r c"
  by (auto simp: all_positions_def in_bounds_def)

lemma distinct_all_positions: "distinct (all_positions g)"
  by (simp add: all_positions_def distinct_product)

lemma count_loop_wf:
  assumes "wf_grid g" "\<forall>p \<in> set ps. in_bounds g (fst p) (snd p)"
  shows "foldl (\<lambda>acc (row, col).
        bindE acc (\<lambda>count. bindE (grid_at g row col) (\<lambda>cur.
          Inr (if cur = ct then count + 1 else count))))
       (Inr n) ps = Inr (n + length (filter (\<lambda>(row, col). grid_at g row col = Inr ct) ps))"
  using assms(2)
proof (induction ps arbitrary: n)
  case Nil
  then show ?case by simp
next
  case (Cons p ps)
  obtain r c where p: "p = (r, c)" by (cases p)
  with Cons.prems have "in_bounds g r c" by simp
  then obtain v where v: "grid_at g r c = Inr v" using grid_at_wf[OF assms(1)] by blast
  show ?case using Cons.IH[of "if v = ct then n + 1 else n"] Cons.prems p v by simp
qed

lemma count_cells_wf:
  assumes "wf_grid g"
  shows "count_cells g ct =
     Inr (length (filter (\<lambda>(row, col). grid_at g row col = Inr ct) (all_positions g)))"
proof -
  have "in_bounds g (fst p) (snd p)" if "p \<in> set (all_positions g)" for p
    using that all_positions_in_bounds[of "fst p" "snd p" g] by simp
  then show ?thesis
    unfolding count_cells_def
    using count_loop_wf[OF assms, of "all_positions g" ct 0] by simp
qed

lemma length_le_one_if_single:
  assumes "distinct xs" "\<And>x. x \<in> set xs \<Longrightarrow> x = a"
  shows "length xs \<le> 1"
proof -
  have "set xs \<subseteq> {a}" using assms(2) by blast
  then have "card (set xs) \<le> card {a}" by (intro card_mono) simp_all
  then show ?thesis using distinct_card[OF assms(1)] by simp
qed

lemma count_cells_START_le:
  assumes "grid_inv g"
  shows "\<exists>n. count_cells g START = Inr n \<and> n \<le> 1"
proof -
  define xs where "xs = filter (\<lambda>(row, col). grid_at g row col = Inr START) (all_positions g)"
  have d: "distinct xs" using distinct_all_positions by (simp add: xs_def)
  have mem: "in_bounds g r c \<and> grid_at g r c = Inr START" if "(r, c) \<in> set xs" for r c
    using that all_positions_in_bounds[of r c g] by (simp add: xs_def)
  have "length xs \<le> 1"
  proof (cases "start_pos g")
    case None
    have "x \<notin> set xs" for x
    proof
      assume that: "x \<in> set xs"
      obtain r c where x: "x = (r, c)" by (cases x)
      with that mem have "in_bounds g r c" "grid_at g r c = Inr START" by simp_all
      then show False using grid_invD(2)[OF assms] None by simp
    qed
    then have "xs = []" by (cases xs) auto
    then show ?thesis by simp
  next
    case (Some a)
    have "x = a" if "x \<in> set xs" for x
    proof -
      obtain r c where x: "x = (r, c)" by (cases x)
      with that mem have "in_bounds g r c" "grid_at g r c = Inr START" by simp_all
      then show ?thesis using grid_invD(2)[OF assms] Some x by simp
    qed
    then show ?thesis using length_le_one_if_single[OF d] by blast
  qed
  then show ?thesis using count_cells_wf[OF grid_invD(1)[OF assms]] by (simp add: xs_def)
qed

lemma count_cells_END_le:
  assumes "grid_inv g"
  shows "\<exists>n. count_cells g END = Inr n \<and> n \<le> 1"
proof -
  define xs where "xs = filter (\<lambda>(row, col). grid_at g row col = Inr END) (all_positions g)"
  have d: "distinct xs" using distinct_all_positions by (simp add: xs_def)
  have mem: "in_bounds g r c \<and> grid_at g r c = Inr END" if "(r, c) \<in> set xs" for r c
    using that all_positions_in_bounds[of r c g] by (simp add: xs_def)
  have "length xs \<le> 1"
  proof (cases "end_pos g")
    case None
    have "x \<notin> set xs" for x
    proof
      assume that: "x \<in> set xs"
      obtain r c where x: "x = (r, c)" by (cases x)
      with that mem have "in_bounds g r c" "grid_at g r c = Inr END" by simp_all
      then show False using grid_invD(3)[OF assms] None by simp
    qed
    then have "xs = []" by (cases xs) auto
    then show ?thesis by simp
  next
    case (Some a)
    have "x = a" if "x \<in> set xs" for x
    proof -
      obtain r c where x: "x = (r, c)" by (cases x)
      with that mem have "in_bounds g r c" "grid_at g r c = Inr END" by simp_all
      then show ?thesis using grid_invD(3)[OF assms] Some x by simp
    qed
    then show ?thesis using length_le_one_if_single[OF d] by blast
  qed
  then show ?thesis using count_cells_wf[OF grid_invD(1)[OF assms]] by (simp add: xs_def)
qed

lemma get_cell_in: "in_bounds g r c \<Longrightarrow> get_cell g r c = grid_at g r c"
  by (simp add: get_cell_def in_bounds_def)

lemma get_cell_out: "\<not> in_bounds g r c \<Longrightarrow> get_cell g r c = Inr WALL"
  by (auto simp: get_cell_def in_bounds_def)

lemma get_cell_frame:
  assumes ib: "in_bounds g' = in_bounds g"
    and fr: "\<And>r c. in_bounds g r c \<Longrightarrow> \<not> (r = row \<and> c = col) \<Longrightarrow> grid_at g' r c = f (grid_at g r c)"
    and wall: "f (Inr WALL) = Inr WALL"
    and ne: "\<not> (r = row \<and> c = col)"
  shows "get_cell g' r c = f (get_cell g r c)"
proof (cases "in_bounds g r c")
  case True
  then have "in_bounds g' r c" using ib by simp
  then show ?thesis using True fr[OF True ne] by (simp add: get_cell_in)
next
  case False
  then have "\<not> in_bounds g' r c" using ib by simp
  then show ?thesis using False wall by (simp add: get_cell_out)
qed

text \<open>
  C8 (as amended). After any sequence of \<open>set_cell\<close> calls on a grid from the constructor the
  array holds at most one Start cell and at most one End cell. For an in-bounds position of
  such a grid: \<open>set_cell\<close> with Start on a cell that does not hold End makes that cell Start,
  sets \<open>start_pos\<close> to it, turns the previous Start cell into Empty and changes no other cell;
  on a cell that holds End it leaves End in that cell. The same holds for End, with the roles of
  Start and End exchanged. \<open>set_cell\<close> with Wall makes the cell Wall, changes no other cell, and
  resets \<open>start_pos\<close> when the cell held Start and \<open>end_pos\<close> when it held End. What the call
  with Start does to \<open>start_pos\<close> and to the previous Start cell when the given cell holds End
  (and likewise for End on the Start cell) is not part of the statement.
\<close>

theorem set_cell_markers:
  assumes reach: "set_cells (Grid_init R C) calls = Inr g"
  shows "(\<exists>n. count_cells g START = Inr n \<and> n \<le> 1) \<and>
         (\<exists>n. count_cells g END = Inr n \<and> n \<le> 1) \<and>
         (in_bounds g row col \<longrightarrow>
            (get_cell g row col \<noteq> Inr END \<longrightarrow>
               (\<exists>g'. set_cell g row col START = Inr g' \<and> get_cell g' row col = Inr START \<and>
                  start_pos g' = Some (row, col) \<and> end_pos g' = end_pos g \<and>
                  (\<forall>r c. \<not> (r = row \<and> c = col) \<longrightarrow>
                     get_cell g' r c =
                       (if get_cell g r c = Inr START then Inr EMPTY else get_cell g r c)))) \<and>
            (get_cell g row col = Inr END \<longrightarrow>
               (\<exists>g'. set_cell g row col START = Inr g' \<and> get_cell g' row col = Inr END)) \<and>
            (get_cell g row col \<noteq> Inr START \<longrightarrow>
               (\<exists>g'. set_cell g row col END = Inr g' \<and> get_cell g' row col = Inr END \<and>
                  end_pos g' = Some (row, col) \<and> start_pos g' = start_pos g \<and>
                  (\<forall>r c. \<not> (r = row \<and> c = col) \<longrightarrow>
                     get_cell g' r c =
                       (if get_cell g r c = Inr END then Inr EMPTY else get_cell g r c)))) \<and>
            (get_cell g row col = Inr START \<longrightarrow>
               (\<exists>g'. set_cell g row col END = Inr g' \<and> get_cell g' row col = Inr START)) \<and>
            (\<exists>g'. set_cell g row col WALL = Inr g' \<and> get_cell g' row col = Inr WALL \<and>
               (\<forall>r c. \<not> (r = row \<and> c = col) \<longrightarrow> get_cell g' r c = get_cell g r c) \<and>
               (get_cell g row col = Inr START \<longrightarrow> start_pos g' = None) \<and>
               (get_cell g row col = Inr END \<longrightarrow> end_pos g' = None)))"
proof -
  have inv: "grid_inv g"
    using set_cells_inv[OF grid_inv_init, of R C calls] reach by simp
  have per_cell: "(get_cell g row col \<noteq> Inr END \<longrightarrow>
               (\<exists>g'. set_cell g row col START = Inr g' \<and> get_cell g' row col = Inr START \<and>
                  start_pos g' = Some (row, col) \<and> end_pos g' = end_pos g \<and>
                  (\<forall>r c. \<not> (r = row \<and> c = col) \<longrightarrow>
                     get_cell g' r c =
                       (if get_cell g r c = Inr START then Inr EMPTY else get_cell g r c)))) \<and>
            (get_cell g row col = Inr END \<longrightarrow>
               (\<exists>g'. set_cell g row col START = Inr g' \<and> get_cell g' row col = Inr END)) \<and>
            (get_cell g row col \<noteq> Inr START \<longrightarrow>
               (\<exists>g'. set_cell g row col END = Inr g' \<and> get_cell g' row col = Inr END \<and>
                  end_pos g' = Some (row, col) \<and> start_pos g' = start_pos g \<and>
                  (\<forall>r c. \<not> (r = row \<and> c = col) \<longrightarrow>
                     get_cell g' r c =
                       (if get_cell g r c = Inr END then Inr EMPTY else get_cell g r c)))) \<and>
            (get_cell g row col = Inr START \<longrightarrow>
               (\<exists>g'. set_cell g row col END = Inr g' \<and> get_cell g' row col = Inr START)) \<and>
            (\<exists>g'. set_cell g row col WALL = Inr g' \<and> get_cell g' row col = Inr WALL \<and>
               (\<forall>r c. \<not> (r = row \<and> c = col) \<longrightarrow> get_cell g' r c = get_cell g r c) \<and>
               (get_cell g row col = Inr START \<longrightarrow> start_pos g' = None) \<and>
               (get_cell g row col = Inr END \<longrightarrow> end_pos g' = None))"
    if ib: "in_bounds g row col"
  proof -
    have gc: "get_cell g row col = grid_at g row col" using ib by (rule get_cell_in)
    obtain gs where gs: "set_cell g row col START = Inr gs" "in_bounds gs = in_bounds g"
      "start_pos gs = Some (row, col)" "end_pos gs = end_pos g"
      "grid_at gs row col = (if grid_at g row col = Inr END then Inr END else Inr START)"
      and gs_fr: "\<And>r c. in_bounds g r c \<Longrightarrow> \<not> (r = row \<and> c = col) \<Longrightarrow>
         grid_at gs r c = (if grid_at g r c = Inr START then Inr EMPTY else grid_at g r c)"
      using set_cell_START_ok[OF inv ib] by blast
    have gcs: "get_cell gs row col = grid_at gs row col" using ib gs(2) by (simp add: get_cell_in)
    have fs: "get_cell gs r c = (if get_cell g r c = Inr START then Inr EMPTY else get_cell g r c)"
      if "\<not> (r = row \<and> c = col)" for r c
      by (rule get_cell_frame[where f = "\<lambda>x. if x = Inr START then Inr EMPTY else x",
            OF gs(2) gs_fr _ that]) simp_all
    obtain ge where ge: "set_cell g row col END = Inr ge" "in_bounds ge = in_bounds g"
      "end_pos ge = Some (row, col)" "start_pos ge = start_pos g"
      "grid_at ge row col = (if grid_at g row col = Inr START then Inr START else Inr END)"
      and ge_fr: "\<And>r c. in_bounds g r c \<Longrightarrow> \<not> (r = row \<and> c = col) \<Longrightarrow>
         grid_at ge r c = (if grid_at g r c = Inr END then Inr EMPTY else grid_at g r c)"
      using set_cell_END_ok[OF inv ib] by blast
    have gce: "get_cell ge row col = grid_at ge row col" using ib ge(2) by (simp add: get_cell_in)
    have fe: "get_cell ge r c = (if get_cell g r c = Inr END then Inr EMPTY else get_cell g r c)"
      if "\<not> (r = row \<and> c = col)" for r c
      by (rule get_cell_frame[where f = "\<lambda>x. if x = Inr END then Inr EMPTY else x",
            OF ge(2) ge_fr _ that]) simp_all
    obtain gw where gw: "set_cell g row col WALL = Inr gw" "in_bounds gw = in_bounds g"
      "start_pos gw = (if grid_at g row col = Inr START then None else start_pos g)"
      "end_pos gw = (if grid_at g row col = Inr END then None else end_pos g)"
      "grid_at gw row col = Inr WALL"
      and gw_fr: "\<And>r c. in_bounds g r c \<Longrightarrow> \<not> (r = row \<and> c = col) \<Longrightarrow>
         grid_at gw r c = grid_at g r c"
      using set_cell_WALL_ok[OF inv ib] by blast
    have gcw: "get_cell gw row col = grid_at gw row col" using ib gw(2) by (simp add: get_cell_in)
    have fw: "get_cell gw r c = get_cell g r c" if "\<not> (r = row \<and> c = col)" for r c
      by (rule get_cell_frame[where f = "\<lambda>x. x", OF gw(2) gw_fr _ that]) simp_all
    have S1: "get_cell g row col \<noteq> Inr END \<longrightarrow>
               (\<exists>g'. set_cell g row col START = Inr g' \<and> get_cell g' row col = Inr START \<and>
                  start_pos g' = Some (row, col) \<and> end_pos g' = end_pos g \<and>
                  (\<forall>r c. \<not> (r = row \<and> c = col) \<longrightarrow>
                     get_cell g' r c =
                       (if get_cell g r c = Inr START then Inr EMPTY else get_cell g r c)))"
      using gs(1,3,4,5) gcs gc fs by auto
    have S2: "get_cell g row col = Inr END \<longrightarrow>
               (\<exists>g'. set_cell g row col START = Inr g' \<and> get_cell g' row col = Inr END)"
      using gs(1,5) gcs gc by auto
    have E1: "get_cell g row col \<noteq> Inr START \<longrightarrow>
               (\<exists>g'. set_cell g row col END = Inr g' \<and> get_cell g' row col = Inr END \<and>
                  end_pos g' = Some (row, col) \<and> start_pos g' = start_pos g \<and>
                  (\<forall>r c. \<not> (r = row \<and> c = col) \<longrightarrow>
                     get_cell g' r c =
                       (if get_cell g r c = Inr END then Inr EMPTY else get_cell g r c)))"
      using ge(1,3,4,5) gce gc fe by auto
    have E2: "get_cell g row col = Inr START \<longrightarrow>
               (\<exists>g'. set_cell g row col END = Inr g' \<and> get_cell g' row col = Inr START)"
      using ge(1,5) gce gc by auto
    have W: "\<exists>g'. set_cell g row col WALL = Inr g' \<and> get_cell g' row col = Inr WALL \<and>
               (\<forall>r c. \<not> (r = row \<and> c = col) \<longrightarrow> get_cell g' r c = get_cell g r c) \<and>
               (get_cell g row col = Inr START \<longrightarrow> start_pos g' = None) \<and>
               (get_cell g row col = Inr END \<longrightarrow> end_pos g' = None)"
      using gw(1,3,4,5) gcw gc fw by auto
    show ?thesis using S1 S2 E1 E2 W by (intro conjI)
  qed
  show ?thesis
    by (rule conjI[OF count_cells_START_le[OF inv]
          conjI[OF count_cells_END_le[OF inv] impI[OF per_cell]]])
qed


lemmas grid_eval = set_cell_def set_cell_branch_def clear_old_start_def clear_old_end_def
  grid_at_def grid_put_def py_get_def py_set_def py_index_def get_cell_def Grid_init_def in_bounds_def
  numeral_2_eq_2

text \<open>
  The claim as written fails on the cell that holds End: \<open>set_cell\<close> with Start leaves End
  in the array there, so the given cell is not marked Start, while \<open>start_pos\<close> is moved to
  it; a later \<open>set_cell\<close> with Wall on that cell then resets \<open>end_pos\<close> only, and \<open>start_pos\<close>
  still names the cell that is now a Wall.
\<close>

theorem set_cell_start_on_end_counterexample:
  "set_cells (Grid_init 1 1) [(0, 0, END)] =
     Inr \<lparr>rows = 1, cols = 1, grid = [[END]], start_pos = None, end_pos = Some (0, 0)\<rparr> \<and>
   set_cell \<lparr>rows = 1, cols = 1, grid = [[END]], start_pos = None, end_pos = Some (0, 0)\<rparr> 0 0 START =
     Inr \<lparr>rows = 1, cols = 1, grid = [[END]], start_pos = Some (0, 0), end_pos = Some (0, 0)\<rparr> \<and>
   get_cell \<lparr>rows = 1, cols = 1, grid = [[END]], start_pos = Some (0, 0), end_pos = Some (0, 0)\<rparr> 0 0
     = Inr END \<and>
   set_cell \<lparr>rows = 1, cols = 1, grid = [[END]], start_pos = Some (0, 0), end_pos = Some (0, 0)\<rparr> 0 0 WALL =
     Inr \<lparr>rows = 1, cols = 1, grid = [[WALL]], start_pos = Some (0, 0), end_pos = None\<rparr>"
  by (simp add: grid_eval)

theorem set_cell_markers_witness:
  "set_cells (Grid_init 1 2) [(0, 0, START)] =
     Inr \<lparr>rows = 1, cols = 2, grid = [[START, EMPTY]], start_pos = Some (0, 0), end_pos = None\<rparr> \<and>
   in_bounds \<lparr>rows = 1, cols = 2, grid = [[START, EMPTY]], start_pos = Some (0, 0), end_pos = None\<rparr> 0 1 \<and>
   get_cell \<lparr>rows = 1, cols = 2, grid = [[START, EMPTY]], start_pos = Some (0, 0), end_pos = None\<rparr> 0 1
     \<noteq> Inr END \<and>
   (\<exists>g'. set_cell \<lparr>rows = 1, cols = 2, grid = [[START, EMPTY]], start_pos = Some (0, 0), end_pos = None\<rparr>
            0 1 START = Inr g' \<and> start_pos g' = Some (0, 1) \<and> get_cell g' 0 1 = Inr START \<and>
          get_cell g' 0 0 = Inr EMPTY) \<and>
   count_cells \<lparr>rows = 1, cols = 2, grid = [[START, EMPTY]], start_pos = Some (0, 0), end_pos = None\<rparr>
     START = Inr 1"
proof -
  let ?g = "\<lparr>rows = 1, cols = 2, grid = [[START, EMPTY]], start_pos = Some (0, 0), end_pos = None\<rparr>"
  have r: "set_cells (Grid_init 1 2) [(0, 0, START)] = Inr ?g"
    by (simp add: grid_eval)
  have ib: "in_bounds ?g 0 1" by (simp add: in_bounds_def)
  have e: "get_cell ?g 0 1 \<noteq> Inr END" and s: "get_cell ?g 0 0 = Inr START"
    by (simp_all add: grid_eval)
  have c: "count_cells ?g START = Inr 1"
    by (simp add: count_cells_def all_positions_def grid_at_def py_get_def py_index_def upto.simps)
  from set_cell_markers[OF r, of 0 1] ib e obtain g' where
    g': "set_cell ?g 0 1 START = Inr g'" "get_cell g' 0 1 = Inr START" "start_pos g' = Some (0, 1)"
    "\<forall>r c. \<not> (r = 0 \<and> c = 1) \<longrightarrow>
       get_cell g' r c = (if get_cell ?g r c = Inr START then Inr EMPTY else get_cell ?g r c)"
    by blast
  from g'(4) s have "get_cell g' 0 0 = Inr EMPTY" by simp
  with g'(1,2,3) r ib e c show ?thesis by blast
qed

section \<open>Properties of the puzzle\<close>

lemma wf_puzzle_square: "wf_puzzle p \<Longrightarrow> square_board p"
  by (simp add: wf_puzzle_def square_board_def)

lemma state_at_wf:
  assumes "square_board p" "on_board p i j"
  shows "state_at p i j = Inr (state p ! nat i ! nat j)"
proof -
  from assms have i: "nat i < length (state p)" "0 \<le> i" "0 \<le> j" "j < int (length (state p))"
    by (auto simp: square_board_def on_board_def)
  then have "length (state p ! nat i) = length (state p)"
    using assms(1) by (simp add: square_board_def)
  with i show ?thesis
    by (simp add: state_at_def py_get_def py_index_def)
qed

lemma state_put_wf:
  assumes "square_board p" "on_board p i j"
  shows "state_put p i j v = Inr (p\<lparr>state := (state p)[nat i := (state p ! nat i)[nat j := v]]\<rparr>)"
proof -
  from assms have i: "nat i < length (state p)" "0 \<le> i" "0 \<le> j" "j < int (length (state p))"
    by (auto simp: square_board_def on_board_def)
  then have "length (state p ! nat i) = length (state p)"
    using assms(1) by (simp add: square_board_def)
  with i show ?thesis
    by (simp add: state_put_def py_get_def py_set_def py_index_def)
qed

lemma square_board_put:
  assumes "square_board p" "on_board p i j"
  shows "square_board (p\<lparr>state := (state p)[nat i := (state p ! nat i)[nat j := v]]\<rparr>)"
proof -
  from assms have i: "nat i < length (state p)"
    by (auto simp: square_board_def on_board_def)
  show ?thesis using assms(1) i unfolding square_board_def
    by (auto dest!: set_update_subset_insert[THEN subsetD])
qed

lemma set_py_range: "set (py_range n) = {0 ..< n}"
proof
  show "set (py_range n) \<subseteq> {0 ..< n}" by (auto simp: py_range_def)
  show "{0 ..< n} \<subseteq> set (py_range n)"
  proof
    fix x assume "x \<in> {0 ..< n}"
    then have "nat x < nat n" "int (nat x) = x" by auto
    then show "x \<in> set (py_range n)" unfolding py_range_def
      by (metis atLeastLessThan_iff image_eqI le0 set_map set_upt)
  qed
qed

lemma on_board_product:
  "(i, j) \<in> set (List.product (py_range (size' p)) (py_range (size' p))) \<longleftrightarrow> on_board p i j"
  by (auto simp: set_py_range on_board_def)

text \<open>\<open>first_empty\<close> on cells of the board: the first listed cell that holds 0.\<close>

lemma first_empty_find:
  assumes "square_board p" "\<forall>c \<in> set cells. on_board p (fst c) (snd c)"
  shows "first_empty p cells =
     Inr (case List.find (\<lambda>(i, j). state p ! nat i ! nat j = 0) cells of
            None \<Rightarrow> (- 1, - 1) | Some c \<Rightarrow> c)"
  using assms(2)
proof (induction cells)
  case Nil
  then show ?case by simp
next
  case (Cons c cells)
  obtain i j where c: "c = (i, j)" by (cases c)
  with Cons.prems have "on_board p i j" by simp
  then have "state_at p i j = Inr (state p ! nat i ! nat j)" by (rule state_at_wf[OF assms(1)])
  then show ?case using Cons c by simp
qed

lemma find_Some_mem: "List.find P xs = Some x \<Longrightarrow> x \<in> set xs \<and> P x"
  by (induction xs) (auto split: if_splits)

lemma find_empty_ok:
  assumes "wf_puzzle p"
  shows "\<exists>row col. find_empty p = Inr (row, col) \<and> on_board p row col \<and>
           state p ! nat row ! nat col = 0"
proof -
  let ?cells = "List.product (py_range (size' p)) (py_range (size' p))"
  let ?P = "\<lambda>(i, j). state p ! nat i ! nat j = (0::int)"
  have sq: "square_board p" using assms by (rule wf_puzzle_square)
  have ob: "\<forall>c \<in> set ?cells. on_board p (fst c) (snd c)"
    using on_board_product[of _ _ p] by auto
  from assms obtain line where line: "line \<in> set (state p)" "0 \<in> set line"
    by (auto simp: wf_puzzle_def)
  then obtain r where r: "r < length (state p)" "state p ! r = line"
    by (auto simp: in_set_conv_nth)
  from line obtain k where k: "k < length line" "line ! k = 0"
    by (auto simp: in_set_conv_nth)
  have len: "length line = length (state p)" using sq line by (simp add: square_board_def)
  have "on_board p (int r) (int k)"
    using r k len sq by (simp add: on_board_def square_board_def)
  then have "(int r, int k) \<in> set ?cells" using on_board_product[of "int r" "int k" p] by blast
  moreover have "?P (int r, int k)" using r k by simp
  ultimately have "\<exists>x. x \<in> set ?cells \<and> ?P x" by (intro exI conjI)
  then have "List.find ?P ?cells \<noteq> None"
    by (simp only: find_None_iff not_not)
  then obtain c where c: "List.find ?P ?cells = Some c" by blast
  obtain row col where rc: "c = (row, col)" by (cases c)
  from c have "c \<in> set ?cells" "?P c"
    using find_Some_mem[of ?P ?cells c] by (simp_all only:)
  then have "on_board p row col" "state p ! nat row ! nat col = 0"
    using rc on_board_product[of row col p] by auto
  moreover have "find_empty p = Inr (row, col)"
    unfolding find_empty_def first_empty_find[OF sq ob] c rc by simp
  ultimately show ?thesis by blast
qed


lemma get_valid_moves_ok:
  assumes "find_empty p = Inr (row, col)"
  shows "get_valid_moves p = Inr
       ((if row > 0 then [''up''] else []) @
        (if row < size' p - 1 then [''down''] else []) @
        (if col > 0 then [''left''] else []) @
        (if col < size' p - 1 then [''right''] else []))"
  using assms by (simp add: get_valid_moves_def)

lemma moves_list_mem:
  "x \<in> set ((if A then [u] else []) @ (if B then [dn] else []) @ (if C then [l] else []) @
     (if D then [r] else [])) \<longleftrightarrow>
   (A \<and> x = u) \<or> (B \<and> x = dn) \<or> (C \<and> x = l) \<or> (D \<and> x = r)"
  by auto

text \<open>A direction is among the valid moves exactly when it names a cell of the board.\<close>

lemma valid_move_iff:
  assumes "find_empty p = Inr (row, col)" "on_board p row col" "get_valid_moves p = Inr moves"
  shows "d \<in> set moves \<longleftrightarrow>
     d \<in> {''up'', ''down'', ''left'', ''right''} \<and>
     on_board p (fst (neighbour_cell d (row, col))) (snd (neighbour_cell d (row, col)))"
proof -
  have m: "moves = (if row > 0 then [''up''] else []) @
        (if row < size' p - 1 then [''down''] else []) @
        (if col > 0 then [''left''] else []) @
        (if col < size' p - 1 then [''right''] else [])"
    using get_valid_moves_ok[OF assms(1)] assms(3) by simp
  have mem: "d \<in> set moves \<longleftrightarrow> (row > 0 \<and> d = ''up'') \<or> (row < size' p - 1 \<and> d = ''down'') \<or>
      (col > 0 \<and> d = ''left'') \<or> (col < size' p - 1 \<and> d = ''right'')"
    unfolding m by (rule moves_list_mem)
  from assms(2) have b: "0 \<le> row" "row < size' p" "0 \<le> col" "col < size' p"
    by (simp_all add: on_board_def)
  show ?thesis
  proof (cases "d = ''up''")
    case True
    have "on_board p (row - 1) col \<longleftrightarrow> row > 0" using b unfolding on_board_def by arith
    then show ?thesis using mem unfolding True neighbour_cell_def by simp
  next
    case nu: False
    show ?thesis
    proof (cases "d = ''down''")
      case True
      have "on_board p (row + 1) col \<longleftrightarrow> row < size' p - 1" using b unfolding on_board_def by arith
      then show ?thesis using mem unfolding True neighbour_cell_def by simp
    next
      case nd: False
      show ?thesis
      proof (cases "d = ''left''")
        case True
        have "on_board p row (col - 1) \<longleftrightarrow> col > 0" using b unfolding on_board_def by arith
        then show ?thesis using mem unfolding True neighbour_cell_def by simp
      next
        case nl: False
        show ?thesis
        proof (cases "d = ''right''")
          case True
          have "on_board p row (col + 1) \<longleftrightarrow> col < size' p - 1" using b unfolding on_board_def by arith
          then show ?thesis using mem unfolding True neighbour_cell_def by simp
        next
          case False
          then show ?thesis using mem nu nd nl by simp
        qed
      qed
    qed
  qed
qed


lemma board_cell_with:
  assumes "\<forall>line \<in> set b. length line = length b"
    and "0 \<le> fst rc" "nat (fst rc) < length b" "0 \<le> snd rc" "nat (snd rc) < length b"
    and "0 \<le> fst x" "nat (fst x) < length b" "0 \<le> snd x" "nat (snd x) < length b"
  shows "board_cell (board_with b rc v) x = (if x = rc then v else board_cell b x)"
proof -
  have len: "length (b ! nat (fst rc)) = length b" using assms(1,3) by simp
  show ?thesis
  proof (cases "x = rc")
    case True
    then show ?thesis using assms len by (simp add: board_cell_def board_with_def)
  next
    case False
    then have "fst x \<noteq> fst rc \<or> snd x \<noteq> snd rc" by (auto simp: prod_eq_iff)
    then have "nat (fst x) \<noteq> nat (fst rc) \<or> nat (snd x) \<noteq> nat (snd rc)"
      using assms(2,4,6,8) by auto
    then show ?thesis using False assms len
      by (auto simp: board_cell_def board_with_def nth_list_update)
  qed
qed

lemma state_put_board:
  assumes "square_board p" "on_board p i j"
  shows "state_put p i j v = Inr (p\<lparr>state := board_with (state p) (i, j) v\<rparr>)"
  using state_put_wf[OF assms] by (simp add: board_with_def)

lemma state_at_board:
  assumes "square_board p" "on_board p i j"
  shows "state_at p i j = Inr (board_cell (state p) (i, j))"
  using state_at_wf[OF assms] by (simp add: board_cell_def)

lemma square_board_with:
  assumes "square_board p" "on_board p i j"
  shows "square_board (p\<lparr>state := board_with (state p) (i, j) v\<rparr>)"
  using square_board_put[OF assms] by (simp add: board_with_def)

lemma length_board_with [simp]: "length (board_with b rc v) = length b"
  by (simp add: board_with_def)

lemma move_target:
  assumes "d \<in> {''up'', ''down'', ''left'', ''right''}"
  shows "(if d = ''up'' then Inr (row - 1, col)
                else if d = ''down'' then Inr (row + 1, col)
                else if d = ''left'' then Inr (row, col - 1)
                else if d = ''right'' then Inr (row, col + 1)
                else Inl UnboundLocalError) = (Inr (neighbour_cell d (row, col)) :: py_error + pos)"
proof (cases "d = ''up''")
  case True then show ?thesis by (simp add: neighbour_cell_def)
next
  case nu: False
  show ?thesis
  proof (cases "d = ''down''")
    case True then show ?thesis by (simp add: neighbour_cell_def)
  next
    case nd: False
    show ?thesis
    proof (cases "d = ''left''")
      case True then show ?thesis by (simp add: neighbour_cell_def)
    next
      case nl: False
      then have "d = ''right''" using assms nu nd by simp
      then show ?thesis by (simp add: neighbour_cell_def)
    qed
  qed
qed


text \<open>
  C7. On a board of \<open>size\<close> rows of \<open>size\<close> tiles that holds a blank, \<open>find_empty\<close> reports
  a cell \<open>(row, col)\<close> of the board that holds 0. For every direction string: if it is not
  among \<open>get_valid_moves\<close>, \<open>make_move\<close> returns \<open>False\<close> and the puzzle is unchanged; if it
  is, \<open>make_move\<close> returns \<open>True\<close>, the neighbouring cell in that direction is on the board,
  and the new board is the old one with the tile of that cell moved to \<open>(row, col)\<close> and the
  blank moved to that cell, every other cell as before.
\<close>

theorem make_move_contract:
  assumes wf: "wf_puzzle p"
  shows "\<exists>row col moves.
     find_empty p = Inr (row, col) \<and> on_board p row col \<and>
     board_cell (state p) (row, col) = 0 \<and> get_valid_moves p = Inr moves \<and>
     (direction \<notin> set moves \<longrightarrow> make_move p direction = Inr (False, p)) \<and>
     (direction \<in> set moves \<longrightarrow>
        (\<exists>p'. make_move p direction = Inr (True, p') \<and>
           size' p' = size' p \<and> total_tiles p' = total_tiles p \<and> square_board p' \<and>
           on_board p (fst (neighbour_cell direction (row, col)))
                      (snd (neighbour_cell direction (row, col))) \<and>
           (\<forall>i j. on_board p i j \<longrightarrow>
              board_cell (state p') (i, j) =
                (if (i, j) = (row, col)
                 then board_cell (state p) (neighbour_cell direction (row, col))
                 else if (i, j) = neighbour_cell direction (row, col) then 0
                 else board_cell (state p) (i, j)))))"
proof -
  have sq: "square_board p" using wf by (rule wf_puzzle_square)
  obtain row col where fe: "find_empty p = Inr (row, col)" and ob: "on_board p row col"
    and z: "state p ! nat row ! nat col = 0"
    using find_empty_ok[OF wf] by blast
  define moves where "moves = (if row > 0 then [''up''] else []) @
        (if row < size' p - 1 then [''down''] else []) @
        (if col > 0 then [''left''] else []) @
        (if col < size' p - 1 then [''right''] else [])"
  have gm: "get_valid_moves p = Inr moves"
    using get_valid_moves_ok[OF fe] by (simp add: moves_def)
  have bz: "board_cell (state p) (row, col) = 0" using z by (simp add: board_cell_def)
  have inv: "make_move p direction = Inr (False, p)" if "direction \<notin> set moves"
    using that gm by (simp add: make_move_def)
  have val: "\<exists>p'. make_move p direction = Inr (True, p') \<and>
           size' p' = size' p \<and> total_tiles p' = total_tiles p \<and> square_board p' \<and>
           on_board p (fst (neighbour_cell direction (row, col)))
                      (snd (neighbour_cell direction (row, col))) \<and>
           (\<forall>i j. on_board p i j \<longrightarrow>
              board_cell (state p') (i, j) =
                (if (i, j) = (row, col)
                 then board_cell (state p) (neighbour_cell direction (row, col))
                 else if (i, j) = neighbour_cell direction (row, col) then 0
                 else board_cell (state p) (i, j)))"
    if mem: "direction \<in> set moves"
  proof -
    obtain tr tc where t: "neighbour_cell direction (row, col) = (tr, tc)"
      by (cases "neighbour_cell direction (row, col)")
    from valid_move_iff[OF fe ob gm, of direction] mem t
    have dir: "direction \<in> {''up'', ''down'', ''left'', ''right''}" and obt: "on_board p tr tc"
      by simp_all
    have ne: "(tr, tc) \<noteq> (row, col)"
    proof
      assume "(tr, tc) = (row, col)"
      then have e: "neighbour_cell direction (row, col) = (row, col)" using t by simp
      show False
      proof (cases "direction = ''up''")
        case True then show ?thesis using e by (simp add: neighbour_cell_def)
      next
        case nu: False
        show ?thesis
        proof (cases "direction = ''down''")
          case True then show ?thesis using e by (simp add: neighbour_cell_def)
        next
          case nd: False
          show ?thesis
          proof (cases "direction = ''left''")
            case True then show ?thesis using e by (simp add: neighbour_cell_def)
          next
            case False then show ?thesis using e nu nd by (simp add: neighbour_cell_def)
          qed
        qed
      qed
    qed
    define a where "a = board_cell (state p) (tr, tc)"
    define p1 where "p1 = p\<lparr>state := board_with (state p) (row, col) a\<rparr>"
    define p2 where "p2 = p1\<lparr>state := board_with (state p1) (tr, tc) 0\<rparr>"
    have sq1: "square_board p1" unfolding p1_def by (rule square_board_with[OF sq ob])
    have ob1: "on_board p1 = on_board p" by (simp add: p1_def on_board_def fun_eq_iff)
    have obt1: "on_board p1 tr tc" using obt ob1 by simp
    have sq2: "square_board p2" unfolding p2_def by (rule square_board_with[OF sq1 obt1])
    have mm: "make_move p direction = Inr (True, p2)"
      unfolding make_move_def
      using gm mem fe move_target[OF dir, of row col] t
        state_at_board[OF sq obt] state_at_board[OF sq ob] bz
        state_put_board[OF sq ob, of a] state_put_board[OF sq1 obt1, of 0]
      by (simp add: a_def[symmetric] p1_def[symmetric] p2_def[symmetric])
    have rows: "\<forall>line \<in> set (state p). length line = length (state p)"
      and n: "size' p = int (length (state p))"
      using sq by (simp_all add: square_board_def)
    have rows1: "\<forall>line \<in> set (state p1). length line = length (state p1)"
      using sq1 by (simp add: square_board_def)
    have cells: "board_cell (state p2) (i, j) =
                (if (i, j) = (row, col) then a
                 else if (i, j) = (tr, tc) then 0
                 else board_cell (state p) (i, j))" if obx: "on_board p i j" for i j
    proof -
      have bx: "0 \<le> i" "nat i < length (state p)" "0 \<le> j" "nat j < length (state p)"
        using obx n by (auto simp: on_board_def)
      have br: "0 \<le> row" "nat row < length (state p)" "0 \<le> col" "nat col < length (state p)"
        using ob n by (auto simp: on_board_def)
      have bt: "0 \<le> tr" "nat tr < length (state p)" "0 \<le> tc" "nat tc < length (state p)"
        using obt n by (auto simp: on_board_def)
      have l1: "length (state p1) = length (state p)" by (simp add: p1_def)
      have "board_cell (state p2) (i, j) =
          (if (i, j) = (tr, tc) then 0 else board_cell (state p1) (i, j))"
        unfolding p2_def using board_cell_with[OF rows1, of "(tr, tc)" "(i, j)" 0] bx bt l1
        by simp
      moreover have "board_cell (state p1) (i, j) =
          (if (i, j) = (row, col) then a else board_cell (state p) (i, j))"
        unfolding p1_def using board_cell_with[OF rows, of "(row, col)" "(i, j)" a] bx br
        by simp
      ultimately show ?thesis using ne by auto
    qed
    have "size' p2 = size' p" "total_tiles p2 = total_tiles p"
      by (simp_all add: p2_def p1_def)
    then show ?thesis using mm sq2 obt t cells by (auto simp: a_def)
  qed
  show ?thesis using fe ob bz gm inv val by blast
qed

lemma flatten_cells_ok:
  assumes "square_board p" "\<forall>c \<in> set cells. on_board p (fst c) (snd c)"
  shows "flatten_cells p cells = Inr (filter (\<lambda>v. v \<noteq> 0) (map (board_cell (state p)) cells))"
  using assms(2)
proof (induction cells)
  case Nil
  then show ?case by simp
next
  case (Cons c cells)
  obtain i j where c: "c = (i, j)" by (cases c)
  with Cons.prems have "on_board p i j" by simp
  then have "state_at p i j = Inr (board_cell (state p) (i, j))" by (rule state_at_board[OF assms(1)])
  then show ?case using Cons c by simp
qed

lemma cells_of_square:
  assumes "\<forall>line \<in> set b. length line = length b"
  shows "map (board_cell b) (List.product (map int [0 ..< length b]) (map int [0 ..< length b])) = concat b"
proof -
  let ?n = "length b"
  have row: "map (\<lambda>j. board_cell b (int i, int j)) [0 ..< ?n] = b ! i" if "i < ?n" for i
  proof -
    have "length (b ! i) = ?n" using assms that by simp
    then have "map (\<lambda>j. b ! i ! j) [0 ..< ?n] = b ! i" using map_nth[of "b ! i"] by simp
    then show ?thesis by (simp add: board_cell_def)
  qed
  have "map (board_cell b) (List.product (map int [0 ..< ?n]) (map int [0 ..< ?n]))
      = concat (map (\<lambda>i. map (\<lambda>j. board_cell b (int i, int j)) [0 ..< ?n]) [0 ..< ?n])"
    by (simp add: product_concat_map map_concat comp_def)
  also have "\<dots> = concat (map (\<lambda>i. b ! i) [0 ..< ?n])"
    using row by (intro arg_cong[where f = concat] map_cong) simp_all
  also have "\<dots> = concat b" by (simp add: map_nth)
  finally show ?thesis .
qed

lemma flatten_board:
  assumes "square_board p"
  shows "flatten_cells p (List.product (py_range (size' p)) (py_range (size' p))) = Inr (spec_flat p)"
proof -
  have ob: "\<forall>c \<in> set (List.product (py_range (size' p)) (py_range (size' p))). on_board p (fst c) (snd c)"
    using on_board_product[of _ _ p] by auto
  have rows: "\<forall>line \<in> set (state p). length line = length (state p)"
    and n: "size' p = int (length (state p))"
    using assms by (simp_all add: square_board_def)
  have "py_range (size' p) = map int [0 ..< length (state p)]" by (simp add: py_range_def n)
  then show ?thesis
    unfolding flatten_cells_ok[OF assms ob] spec_flat_def
    using cells_of_square[OF rows] by simp
qed

text \<open>The inversion loops against the count of pairs.\<close>

lemma inner_count:
  "foldl (\<lambda>inversions j. if P j then inversions + 1 else inversions) (acc::int) js
     = acc + int (length (filter P js))"
  by (induction js arbitrary: acc) simp_all

lemma outer_count:
  "foldl (\<lambda>inversions i.
        foldl (\<lambda>inversions j. if P i j then inversions + 1 else inversions) inversions (J i))
       (acc::int) is
     = acc + int (sum_list (map (\<lambda>i. length (filter (P i) (J i))) is))"
  by (induction "is" arbitrary: acc) (simp_all add: inner_count)

lemma pairs_count:
  "length (filter Q (List.product xs ys))
     = sum_list (map (\<lambda>x. length (filter (\<lambda>y. Q (x, y)) ys)) xs)"
  by (induction xs) (simp_all add: filter_map comp_def)

lemma above_count:
  assumes "i < n"
  shows "length (filter (\<lambda>j. i < j \<and> P j) [0 ..< n]) = length (filter P [Suc i ..< n])"
proof -
  have "[0 ..< n] = [0 ..< Suc i] @ [Suc i ..< n]"
    using assms by (metis Suc_leI le0 upt_add_eq_append le_add_diff_inverse add.left_neutral)
  moreover have "filter (\<lambda>j. i < j \<and> P j) [0 ..< Suc i] = []" by (auto simp: filter_empty_conv)
  moreover have "filter (\<lambda>j. i < j \<and> P j) [Suc i ..< n] = filter P [Suc i ..< n]"
    by (intro filter_cong) auto
  ultimately show ?thesis by simp
qed

lemma count_inversions_spec: "count_inversions flat = int (spec_inversions flat)"
proof -
  let ?n = "length flat"
  have "count_inversions flat
      = int (sum_list (map (\<lambda>i. length (filter (\<lambda>j. flat ! i > flat ! j) [i + 1 ..< ?n])) [0 ..< ?n]))"
    unfolding count_inversions_def
    using outer_count[of "\<lambda>i j. flat ! i > flat ! j" "\<lambda>i. [i + 1 ..< ?n]" 0 "[0 ..< ?n]"] by simp
  also have "map (\<lambda>i. length (filter (\<lambda>j. flat ! i > flat ! j) [i + 1 ..< ?n])) [0 ..< ?n]
      = map (\<lambda>i. length (filter (\<lambda>j. i < j \<and> flat ! i > flat ! j) [0 ..< ?n])) [0 ..< ?n]"
    by (intro map_cong refl) (simp add: above_count)
  also have "int (sum_list \<dots>) = int (spec_inversions flat)"
    unfolding spec_inversions_def pairs_count by simp
  finally show ?thesis .
qed


lemma find_append_cases:
  "List.find P (xs @ ys) = (case List.find P xs of None \<Rightarrow> List.find P ys | Some x \<Rightarrow> Some x)"
  by (induction xs) simp_all

lemma find_row_none:
  assumes "length (b ! k) = n" "0 \<notin> set (b ! k)"
  shows "List.find (\<lambda>(i, j). b ! nat i ! nat j = (0::int)) (map (Pair (int k)) (map int [0 ..< n])) = None"
proof -
  let ?P = "\<lambda>(i, j). b ! nat i ! nat j = (0::int)"
  let ?cs = "map (Pair (int k)) (map int [0 ..< n])"
  have "\<not> ?P x" if "x \<in> set ?cs" for x
  proof -
    from that obtain j where j: "j < n" "x = (int k, int j)" by auto
    then have "b ! k ! j \<in> set (b ! k)" using assms by simp
    then show ?thesis using j assms(2) by auto
  qed
  then show ?thesis unfolding find_None_iff by blast
qed

lemma find_row_some:
  assumes "length (b ! k) = n" "0 \<in> set (b ! k)"
  shows "\<exists>c. List.find (\<lambda>(i, j). b ! nat i ! nat j = (0::int)) (map (Pair (int k)) (map int [0 ..< n]))
     = Some (int k, c)"
proof -
  let ?P = "\<lambda>(i, j). b ! nat i ! nat j = (0::int)"
  let ?cs = "map (Pair (int k)) (map int [0 ..< n])"
  from assms(2) obtain j where j: "j < length (b ! k)" "b ! k ! j = 0" by (auto simp: in_set_conv_nth)
  then have "(int k, int j) \<in> set ?cs" "?P (int k, int j)" using assms(1) by auto
  then have "\<exists>x. x \<in> set ?cs \<and> ?P x" by blast
  then have "List.find ?P ?cs \<noteq> None" by (simp only: find_None_iff not_not)
  then obtain x where x: "List.find ?P ?cs = Some x" by blast
  then have "x \<in> set ?cs" using find_Some_mem[of ?P ?cs x] by (simp only:)
  then have "fst x = int k" by auto
  then show ?thesis using x by (cases x) auto
qed

text \<open>The scan of the rows from row \<open>k\<close> on stops in the first row that holds a zero.\<close>

lemma find_rows_from:
  assumes rows: "\<forall>line \<in> set b. length line = length b"
  shows "k \<le> length b \<Longrightarrow> \<exists>line \<in> set (drop k b). 0 \<in> set line \<Longrightarrow>
     \<exists>c. List.find (\<lambda>(i, j). b ! nat i ! nat j = (0::int))
            (List.product (map int [k ..< length b]) (map int [0 ..< length b]))
       = Some (int (k + length (takeWhile (\<lambda>line. 0 \<notin> set line) (drop k b))), c)"
proof (induction "length b - k" arbitrary: k)
  case 0
  then show ?case by simp
next
  case (Suc m)
  then have k: "k < length b" by simp
  let ?P = "\<lambda>(i, j). b ! nat i ! nat j = (0::int)"
  let ?cols = "map int [0 ..< length b]"
  have len: "length (b ! k) = length b" using rows k by simp
  have dr: "drop k b = b ! k # drop (Suc k) b" using k by (simp add: Cons_nth_drop_Suc)
  have pr: "List.product (map int [k ..< length b]) ?cols
      = map (Pair (int k)) ?cols @ List.product (map int [Suc k ..< length b]) ?cols"
    using k by (simp add: upt_conv_Cons)
  show ?case
  proof (cases "0 \<in> set (b ! k)")
    case True
    obtain c where "List.find ?P (map (Pair (int k)) ?cols) = Some (int k, c)"
      using find_row_some[OF len True] by blast
    then show ?thesis unfolding pr find_append_cases dr using True by simp
  next
    case False
    have none: "List.find ?P (map (Pair (int k)) ?cols) = None"
      by (rule find_row_none[OF len False])
    have ex: "\<exists>line \<in> set (drop (Suc k) b). 0 \<in> set line"
      using Suc.prems(2) False unfolding dr by simp
    have m: "m = length b - Suc k" and le: "Suc k \<le> length b" using Suc.hyps(2) k by simp_all
    obtain c where "List.find ?P (List.product (map int [Suc k ..< length b]) ?cols)
       = Some (int (Suc k + length (takeWhile (\<lambda>line. 0 \<notin> set line) (drop (Suc k) b))), c)"
      using Suc.hyps(1)[OF m le ex] by blast
    then show ?thesis unfolding pr find_append_cases dr none using False by simp
  qed
qed

lemma find_empty_row:
  assumes "wf_puzzle p"
  shows "\<exists>c. find_empty p = Inr (int (length (takeWhile (\<lambda>line. 0 \<notin> set line) (state p))), c)"
proof -
  have sq: "square_board p" using assms by (rule wf_puzzle_square)
  have rows: "\<forall>line \<in> set (state p). length line = length (state p)"
    and n: "size' p = int (length (state p))"
    using sq by (simp_all add: square_board_def)
  have ob: "\<forall>c \<in> set (List.product (py_range (size' p)) (py_range (size' p))). on_board p (fst c) (snd c)"
    using on_board_product[of _ _ p] by auto
  have r: "py_range (size' p) = map int [0 ..< length (state p)]" by (simp add: py_range_def n)
  have "\<exists>line \<in> set (drop 0 (state p)). 0 \<in> set line" using assms by (simp add: wf_puzzle_def)
  from find_rows_from[OF rows _ this] obtain c where
    "List.find (\<lambda>(i, j). state p ! nat i ! nat j = (0::int))
            (List.product (map int [0 ..< length (state p)]) (map int [0 ..< length (state p)]))
       = Some (int (length (takeWhile (\<lambda>line. 0 \<notin> set line) (state p))), c)"
    by auto
  moreover have "find_empty p = Inr (case List.find (\<lambda>(i, j). state p ! nat i ! nat j = (0::int))
            (List.product (map int [0 ..< length (state p)]) (map int [0 ..< length (state p)])) of
            None \<Rightarrow> (- 1, - 1) | Some c \<Rightarrow> c)"
    using first_empty_find[OF sq ob] unfolding find_empty_def r by simp
  ultimately show ?thesis by simp
qed

text \<open>
  C3. On a board of \<open>size\<close> rows of \<open>size\<close> tiles that holds a blank, \<open>is_solvable\<close> returns
  true exactly when the rule of the specification holds: with \<open>I\<close> the number of pairs
  \<open>i < j\<close> with \<open>tile[i] > tile[j]\<close> in the row-major flattening without the blank, either
  the size is odd and \<open>I\<close> is even, or the size is even and \<open>I\<close> plus the row of the blank
  counted from the bottom (0 for the last row) is even.
\<close>

theorem is_solvable_parity:
  assumes "wf_puzzle p"
  shows "is_solvable p = Inr (spec_solvable p)"
proof -
  have sq: "square_board p" using assms by (rule wf_puzzle_square)
  obtain c where fe: "find_empty p = Inr (int (length (takeWhile (\<lambda>line. 0 \<notin> set line) (state p))), c)"
    using find_empty_row[OF assms] by blast
  have n: "size' p = int (length (state p))" using sq by (simp add: square_board_def)
  have par: "(x mod 2 = 0) = even x" for x :: int by presburger
  show ?thesis
  proof (cases "odd (size' p)")
    case True
    then have "size' p mod 2 = 1" by (simp add: odd_iff_mod_2_eq_one)
    then show ?thesis
      unfolding is_solvable_def flatten_board[OF sq] spec_solvable_def
      using True by (simp add: count_inversions_spec par)
  next
    case False
    then have "size' p mod 2 \<noteq> 1" by (simp add: odd_iff_mod_2_eq_one)
    then show ?thesis
      unfolding is_solvable_def flatten_board[OF sq] spec_solvable_def
      using False fe n
      by (simp add: count_inversions_spec spec_blank_row_from_bottom_def par)
  qed
qed

theorem is_solvable_parity_witness:
  "wf_puzzle \<lparr>size' = 3, total_tiles = 8, state = [[2, 1, 3], [4, 5, 6], [7, 8, 0]]\<rparr> \<and>
   is_solvable \<lparr>size' = 3, total_tiles = 8, state = [[2, 1, 3], [4, 5, 6], [7, 8, 0]]\<rparr> = Inr False \<and>
   wf_puzzle \<lparr>size' = 4, total_tiles = 15,
      state = [[1, 2, 3, 4], [5, 6, 7, 8], [9, 10, 0, 12], [13, 14, 11, 15]]\<rparr> \<and>
   is_solvable \<lparr>size' = 4, total_tiles = 15,
      state = [[1, 2, 3, 4], [5, 6, 7, 8], [9, 10, 0, 12], [13, 14, 11, 15]]\<rparr> = Inr True"
proof -
  let ?p = "\<lparr>size' = 3, total_tiles = 8, state = [[2, 1, 3], [4, 5, 6], [7, 8, 0]]\<rparr>"
  let ?q = "\<lparr>size' = 4, total_tiles = 15,
      state = [[1, 2, 3, 4], [5, 6, 7, 8], [9, 10, 0, 12], [13, 14, 11, 15]]\<rparr>"
  have wp: "wf_puzzle ?p" and wq: "wf_puzzle ?q" by (simp_all add: wf_puzzle_def)
  have "spec_solvable ?p = False" by code_simp
  moreover have "spec_solvable ?q = True" by code_simp
  ultimately show ?thesis
    using is_solvable_parity[OF wp] is_solvable_parity[OF wq] wp wq by simp
qed

text \<open>The pair count of the specification is the cardinality of the set of inverted pairs.\<close>

lemma spec_inversions_card:
  "spec_inversions tile = card {(i, j). i < j \<and> j < length tile \<and> tile ! i > tile ! j}"
proof -
  let ?xs = "List.product [0 ..< length tile] [0 ..< length tile]"
  have "distinct ?xs" by (simp add: distinct_product)
  then have "spec_inversions tile = card ({x. case x of (i, j) \<Rightarrow> i < j \<and> tile ! i > tile ! j} \<inter> set ?xs)"
    unfolding spec_inversions_def by (rule distinct_length_filter)
  also have "{x. case x of (i, j) \<Rightarrow> i < j \<and> tile ! i > tile ! j} \<inter> set ?xs
      = {(i, j). i < j \<and> j < length tile \<and> tile ! i > tile ! j}"
    by auto
  finally show ?thesis .
qed

theorem make_move_contract_witness:
  "wf_puzzle \<lparr>size' = 3, total_tiles = 8, state = [[1, 2, 3], [4, 0, 5], [7, 8, 6]]\<rparr> \<and>
   make_move \<lparr>size' = 3, total_tiles = 8, state = [[1, 2, 3], [4, 0, 5], [7, 8, 6]]\<rparr> ''up''
     = Inr (True, \<lparr>size' = 3, total_tiles = 8, state = [[1, 0, 3], [4, 2, 5], [7, 8, 6]]\<rparr>) \<and>
   (\<exists>row col moves.
      find_empty \<lparr>size' = 3, total_tiles = 8, state = [[1, 2, 3], [4, 0, 5], [7, 8, 6]]\<rparr>
        = Inr (row, col) \<and>
      get_valid_moves \<lparr>size' = 3, total_tiles = 8, state = [[1, 2, 3], [4, 0, 5], [7, 8, 6]]\<rparr>
        = Inr moves \<and>
      (''jump'' \<notin> set moves \<longrightarrow>
         make_move \<lparr>size' = 3, total_tiles = 8, state = [[1, 2, 3], [4, 0, 5], [7, 8, 6]]\<rparr> ''jump''
           = Inr (False, \<lparr>size' = 3, total_tiles = 8, state = [[1, 2, 3], [4, 0, 5], [7, 8, 6]]\<rparr>)))"
proof -
  let ?p = "\<lparr>size' = 3, total_tiles = 8, state = [[1, 2, 3], [4, 0, 5], [7, 8, 6]]\<rparr>"
  have wp: "wf_puzzle ?p" by (simp add: wf_puzzle_def)
  have up: "make_move ?p ''up''
     = Inr (True, \<lparr>size' = 3, total_tiles = 8, state = [[1, 0, 3], [4, 2, 5], [7, 8, 6]]\<rparr>)"
    by code_simp
  from make_move_contract[OF wp, of "''jump''"] obtain row col moves where
    "find_empty ?p = Inr (row, col)" "get_valid_moves ?p = Inr moves"
    "''jump'' \<notin> set moves \<longrightarrow> make_move ?p ''jump'' = Inr (False, ?p)"
    by blast
  then show ?thesis using wp up by blast
qed

section \<open>Properties of the searches\<close>

lemma is_valid_wf:
  assumes "wf_grid g"
  shows "is_valid g row col = Inr (valid_cell g (row, col))"
proof (cases "in_bounds g row col")
  case True
  then show ?thesis
    using grid_at_wf[OF assms True] by (simp add: is_valid_def valid_cell_def in_bounds_def)
next
  case False
  then show ?thesis by (auto simp: is_valid_def valid_cell_def in_bounds_def)
qed

lemma neighbors_loop_wf:
  assumes "wf_grid g"
  shows "neighbors_loop g row col ds acc
     = Inr (acc @ filter (valid_cell g) (map (\<lambda>(dr, dc). (row + dr, col + dc)) ds))"
proof (induction ds arbitrary: acc)
  case Nil
  then show ?case by simp
next
  case (Cons d ds)
  obtain dr dc where d: "d = (dr, dc)" by (cases d)
  show ?case using Cons[of "if valid_cell g (row + dr, col + dc) then acc @ [(row + dr, col + dc)] else acc"]
    by (simp add: d is_valid_wf[OF assms])
qed

lemma get_neighbors_wf:
  assumes "wf_grid g"
  shows "get_neighbors g (fst p) (snd p) False = Inr (nbrs g p)"
  unfolding get_neighbors_def neighbors_loop_wf[OF assms] nbrs_def by simp

lemma endpoint_invalid_wf:
  assumes "wf_grid g"
  shows "endpoint_invalid g start end' = Inr (\<not> valid_cell g start \<or> \<not> valid_cell g end')"
  by (simp add: endpoint_invalid_def is_valid_wf[OF assms])

lemma valid_cell_get_cell:
  assumes "wf_grid g"
  shows "valid_cell g p \<longleftrightarrow> get_cell g (fst p) (snd p) \<noteq> Inr WALL"
  by (cases "in_bounds g (fst p) (snd p)") (simp_all add: valid_cell_def get_cell_in get_cell_out)

text \<open>
  C5. On a grid whose array has the shape the constructor gives it, when \<open>start\<close> or \<open>end\<close>
  is out of bounds or on a Wall cell, each of the four searches returns, raising nothing, the
  fresh result: not found, with empty path, empty exploring and visited traces, and
  \<open>nodes_explored = 0\<close>.
\<close>

theorem invalid_endpoint_result:
  assumes "wf_grid g"
    and "\<not> in_bounds g (fst start) (snd start) \<or> get_cell g (fst start) (snd start) = Inr WALL \<or>
         \<not> in_bounds g (fst end') (snd end') \<or> get_cell g (fst end') (snd end') = Inr WALL"
  shows "bfs g start end' = Some (Inr \<lparr>path = [], visited = [], exploring = [], found = False,
            path_length = 0, nodes_explored = 0\<rparr>) \<and>
         dfs g start end' = Some (Inr \<lparr>path = [], visited = [], exploring = [], found = False,
            path_length = 0, nodes_explored = 0\<rparr>) \<and>
         astar g start end' = Some (Inr \<lparr>path = [], visited = [], exploring = [], found = False,
            path_length = 0, nodes_explored = 0\<rparr>) \<and>
         dijkstra g start end' = Some (Inr \<lparr>path = [], visited = [], exploring = [], found = False,
            path_length = 0, nodes_explored = 0\<rparr>)"
proof -
  have "\<not> valid_cell g start \<or> \<not> valid_cell g end'"
    using assms(2) valid_cell_get_cell[OF assms(1)] get_cell_out by blast
  then have "endpoint_invalid g start end' = Inr True"
    using endpoint_invalid_wf[OF assms(1)] by simp
  then show ?thesis
    by (simp add: bfs_def dfs_def astar_def dijkstra_def PathfindingResult_init_def)
qed

theorem invalid_endpoint_result_witness:
  "wf_grid (Grid_init 2 2) \<and> \<not> in_bounds (Grid_init 2 2) (fst (5, 0)) (snd (5, 0)) \<and>
   (bfs (Grid_init 2 2) (5, 0) (1, 1) = Some (Inr \<lparr>path = [], visited = [], exploring = [],
      found = False, path_length = 0, nodes_explored = 0\<rparr>) \<and>
    dfs (Grid_init 2 2) (5, 0) (1, 1) = Some (Inr \<lparr>path = [], visited = [], exploring = [],
      found = False, path_length = 0, nodes_explored = 0\<rparr>) \<and>
    astar (Grid_init 2 2) (5, 0) (1, 1) = Some (Inr \<lparr>path = [], visited = [], exploring = [],
      found = False, path_length = 0, nodes_explored = 0\<rparr>) \<and>
    dijkstra (Grid_init 2 2) (5, 0) (1, 1) = Some (Inr \<lparr>path = [], visited = [], exploring = [],
      found = False, path_length = 0, nodes_explored = 0\<rparr>))"
proof -
  have nb: "\<not> in_bounds (Grid_init 2 2) (fst (5, 0)) (snd (5, 0))"
    by (simp add: in_bounds_def Grid_init_def)
  show ?thesis
    by (rule conjI[OF wf_grid_init conjI[OF nb
          invalid_endpoint_result[OF wf_grid_init disjI1[OF nb], of "(1, 1)"]]])
qed

section \<open>The searches return\<close>

subsection \<open>Path reconstruction\<close>

lemma chain_mono:
  assumes "chain parent S v n" "S \<subseteq> S'" "\<And>x. x \<in> S \<Longrightarrow> parent' x = parent x"
  shows "chain parent' S' v n"
  using assms
proof (induction rule: chain.induct)
  case (chain_root v)
  have "v \<in> S'" "parent' v = Some None" using chain_root by auto
  then show ?case by (rule chain.chain_root)
next
  case (chain_step v u n)
  have "v \<in> S'" "parent' v = Some (Some u)" using chain_step by auto
  moreover have "chain parent' S' u n" using chain_step by blast
  ultimately show ?case by (rule chain.chain_step)
qed

lemma chain_in: "chain parent S v n \<Longrightarrow> v \<in> S"
  by (induction rule: chain.induct) simp_all

lemma reconstruct_chain:
  assumes "chain parent S v n"
  shows "\<exists>ps. reconstruct parent (Some v) acc = Some (Inr (acc @ ps)) \<and> length ps = Suc n"
  using assms
proof (induction arbitrary: acc rule: chain.induct)
  case (chain_root v)
  have "reconstruct parent (Some v) acc = Some (Inr (acc @ [v]))"
    using chain_root by (simp add: reconstruct.simps[of parent "Some v"] reconstruct.simps[of parent None])
  then show ?case by simp
next
  case (chain_step v u n)
  obtain ps where "reconstruct parent (Some u) (acc @ [v]) = Some (Inr ((acc @ [v]) @ ps))"
    "length ps = Suc n" using chain_step.IH by blast
  then have "reconstruct parent (Some v) acc = Some (Inr (acc @ (v # ps)))"
    using chain_step.hyps by (simp add: reconstruct.simps[of parent "Some v"])
  then show ?case using \<open>length ps = Suc n\<close> by (intro exI[of _ "v # ps"]) simp
qed

lemma finish_chain:
  assumes "chain parent S end' n"
  shows "\<exists>p. finish parent end' count result = Some (Inr (result\<lparr>path := p, found := True,
                           path_length := int n, nodes_explored := count\<rparr>)) \<and> length p = Suc n"
proof -
  obtain ps where "reconstruct parent (Some end') [] = Some (Inr ps)" "length ps = Suc n"
    using reconstruct_chain[OF assms, of "[]"] by auto
  then have "finish parent end' count result = Some (Inr (result\<lparr>path := rev ps, found := True,
                           path_length := int n, nodes_explored := count\<rparr>))"
    by (simp add: finish_def)
  then show ?thesis using \<open>length ps = Suc n\<close> by (intro exI[of _ "rev ps"]) simp
qed

lemma finish_traces:
  assumes "finish parent end' count result = Some (Inr r)"
  shows "visited r = visited result \<and> exploring r = exploring result"
  using assms by (auto simp: finish_def split: option.splits sum.splits)

subsection \<open>The inner loop of bfs and dfs\<close>

lemma set_fresh: "set (fresh ns seen) = set ns - seen"
  by (induction ns seen rule: fresh.induct) auto

lemma distinct_fresh: "distinct (fresh ns seen)"
  by (induction ns seen rule: fresh.induct) (auto simp: set_fresh)

lemma bfs_visit_closed:
  "bfs_visit ns current queue seen parent rvisited =
     (queue @ fresh ns seen, seen \<union> set ns,
      (\<lambda>x. if x \<in> set (fresh ns seen) then Some (Some current) else parent x),
      rvisited @ fresh ns seen)"
proof (induction ns arbitrary: queue seen parent rvisited)
  case Nil
  then show ?case by simp
next
  case (Cons n ns)
  show ?case
  proof (cases "n \<in> seen")
    case True
    then have "insert n (seen \<union> set ns) = seen \<union> set ns" by auto
    then show ?thesis using True Cons by simp
  next
    case False
    have "(\<lambda>x. if x \<in> set (fresh ns (insert n seen)) then Some (Some current)
                else (parent(n \<mapsto> Some current)) x)
        = (\<lambda>x. if x = n \<or> x \<in> set (fresh ns (insert n seen)) then Some (Some current) else parent x)"
      by (auto simp: fun_eq_iff)
    then show ?thesis using False Cons by simp
  qed
qed

subsection \<open>The nodes of the grid\<close>

lemma finite_valid: "finite {p. valid_cell g p}"
proof -
  have "{p. valid_cell g p} \<subseteq> {0 ..< rows g} \<times> {0 ..< cols g}"
    by (auto simp: valid_cell_def in_bounds_def)
  then show ?thesis by (rule finite_subset) simp
qed

lemma nbrs_valid: "q \<in> set (nbrs g p) \<Longrightarrow> valid_cell g q"
  by (simp only: nbrs_def set_filter) blast

lemma frontier_inv_step:
  assumes inv: "frontier_inv frontier seen parent" and cur: "current \<in> set frontier"
    and rest: "set rest \<subseteq> set frontier"
  shows "frontier_inv (rest @ fresh ns seen) (seen \<union> set ns)
           (\<lambda>x. if x \<in> set (fresh ns seen) then Some (Some current) else parent x)"
proof -
  let ?new = "fresh ns seen"
  let ?seen' = "seen \<union> set ns"
  let ?parent' = "\<lambda>x. if x \<in> set ?new then Some (Some current) else parent x"
  have fr: "set frontier \<subseteq> seen" and ch: "\<And>v. v \<in> seen \<Longrightarrow> \<exists>n. chain parent seen v n"
    using inv by (auto simp: frontier_inv_def)
  have agree: "?parent' x = parent x" if "x \<in> seen" for x
    using that by (simp add: set_fresh)
  have old: "\<exists>n. chain ?parent' ?seen' v n" if v: "v \<in> seen" for v
  proof -
    obtain n where "chain parent seen v n" using ch[OF v] by blast
    then have "chain ?parent' ?seen' v n" by (rule chain_mono) (use agree in auto)
    then show ?thesis by blast
  qed
  have new: "\<exists>n. chain ?parent' ?seen' v n" if "v \<in> set ?new" for v
  proof -
    have "current \<in> seen" using cur fr by blast
    then obtain n where "chain ?parent' ?seen' current n" using old by blast
    moreover have "v \<in> ?seen'" using that by (auto simp: set_fresh)
    moreover have "?parent' v = Some (Some current)" using that by simp
    ultimately have "chain ?parent' ?seen' v (Suc n)" by (intro chain.chain_step)
    then show ?thesis by blast
  qed
  have "\<exists>n. chain ?parent' ?seen' v n" if "v \<in> ?seen'" for v
  proof (cases "v \<in> seen")
    case True then show ?thesis by (rule old)
  next
    case False
    then have "v \<in> set ?new" using that by (auto simp: set_fresh)
    then show ?thesis by (rule new)
  qed
  moreover have "set (rest @ ?new) \<subseteq> ?seen'" using rest fr by (auto simp: set_fresh)
  ultimately show ?thesis unfolding frontier_inv_def by blast
qed

lemma frontier_measure:
  assumes "set ns \<subseteq> {p. valid_cell g p}"
  shows "card ({p. valid_cell g p} - (seen \<union> set ns)) + length (fresh ns seen)
           = card ({p. valid_cell g p} - seen)"
proof -
  let ?V = "{p. valid_cell g p}"
  have "?V - seen = (?V - (seen \<union> set ns)) \<union> set (fresh ns seen)"
    using assms by (auto simp: set_fresh)
  moreover have "(?V - (seen \<union> set ns)) \<inter> set (fresh ns seen) = {}" by (auto simp: set_fresh)
  moreover have "finite (?V - (seen \<union> set ns))" using finite_valid by simp
  ultimately have "card (?V - seen) = card (?V - (seen \<union> set ns)) + card (set (fresh ns seen))"
    by (simp add: card_Un_disjoint)
  then show ?thesis using distinct_card[OF distinct_fresh, of ns seen] by simp
qed

lemma bfs_loop_returns:
  assumes wf: "wf_grid g"
  shows "frontier_inv queue seen parent \<Longrightarrow>
     \<exists>r. bfs_loop g end' queue seen parent result = Some (Inr r)"
proof (induction "2 * card ({p. valid_cell g p} - seen) + length queue"
    arbitrary: queue seen parent result rule: less_induct)
  case less
  show ?case
  proof (cases queue)
    case Nil
    then show ?thesis by (subst bfs_loop.simps) simp
  next
    case (Cons current rest)
    let ?r1 = "result\<lparr>exploring := exploring result @ [current]\<rparr>"
    show ?thesis
    proof (cases "current = end'")
      case True
      have "end' \<in> seen" using less.prems Cons True by (auto simp: frontier_inv_def)
      then obtain n where "chain parent seen end' n"
        using less.prems by (auto simp: frontier_inv_def)
      from finish_chain[OF this, of "int (card seen)" ?r1]
      obtain r where "finish parent end' (int (card seen)) ?r1 = Some (Inr r)" by blast
      moreover have "bfs_loop g end' queue seen parent result
          = finish parent end' (int (card seen)) ?r1"
        by (subst bfs_loop.simps) (simp add: Cons True Let_def)
      ultimately show ?thesis by simp
    next
      case False
      let ?ns = "nbrs g current"
      let ?new = "fresh ?ns seen"
      let ?seen' = "seen \<union> set ?ns"
      let ?parent' = "\<lambda>x. if x \<in> set ?new then Some (Some current) else parent x"
      have step: "bfs_loop g end' queue seen parent result
          = bfs_loop g end' (rest @ ?new) ?seen' ?parent' (?r1\<lparr>visited := visited ?r1 @ ?new\<rparr>)"
        by (subst bfs_loop.simps)
          (simp add: Cons False Let_def get_neighbors_wf[OF wf] bfs_visit_closed)
      have inv': "frontier_inv (rest @ ?new) ?seen' ?parent'"
        by (rule frontier_inv_step[OF less.prems]) (auto simp: Cons)
      have "set ?ns \<subseteq> {p. valid_cell g p}" using nbrs_valid[of _ g current] by blast
      from frontier_measure[OF this, of seen]
      have "2 * card ({p. valid_cell g p} - ?seen') + length (rest @ ?new)
          < 2 * card ({p. valid_cell g p} - seen) + length queue"
        using Cons by simp
      from less.hyps[OF this inv'] show ?thesis unfolding step .
    qed
  qed
qed


lemma dfs_loop_returns:
  assumes wf: "wf_grid g"
  shows "frontier_inv stack seen parent \<Longrightarrow>
     \<exists>r. dfs_loop g end' stack seen parent result = Some (Inr r)"
proof (induction "2 * card ({p. valid_cell g p} - seen) + length stack"
    arbitrary: stack seen parent result rule: less_induct)
  case less
  show ?case
  proof (cases "stack = []")
    case True
    then show ?thesis by (subst dfs_loop.simps) simp
  next
    case ne: False
    define current where "current = last stack"
    define rest where "rest = butlast stack"
    have st: "stack = rest @ [current]" using ne by (simp add: current_def rest_def)
    let ?r1 = "result\<lparr>exploring := exploring result @ [current]\<rparr>"
    show ?thesis
    proof (cases "current = end'")
      case True
      have "end' \<in> seen" using less.prems st True by (auto simp: frontier_inv_def)
      then obtain n where "chain parent seen end' n"
        using less.prems by (auto simp: frontier_inv_def)
      from finish_chain[OF this, of "int (card seen)" ?r1]
      obtain r where "finish parent end' (int (card seen)) ?r1 = Some (Inr r)" by blast
      moreover have "dfs_loop g end' stack seen parent result
          = finish parent end' (int (card seen)) ?r1"
        by (subst dfs_loop.simps) (simp add: ne True Let_def current_def[symmetric])
      ultimately show ?thesis by simp
    next
      case False
      let ?ns = "nbrs g current"
      let ?new = "fresh ?ns seen"
      let ?seen' = "seen \<union> set ?ns"
      let ?parent' = "\<lambda>x. if x \<in> set ?new then Some (Some current) else parent x"
      have step: "dfs_loop g end' stack seen parent result
          = dfs_loop g end' (rest @ ?new) ?seen' ?parent' (?r1\<lparr>visited := visited ?r1 @ ?new\<rparr>)"
        by (subst dfs_loop.simps)
          (simp add: ne False Let_def get_neighbors_wf[OF wf] bfs_visit_closed
             current_def[symmetric] rest_def[symmetric])
      have inv': "frontier_inv (rest @ ?new) ?seen' ?parent'"
        by (rule frontier_inv_step[OF less.prems]) (auto simp: st)
      have "set ?ns \<subseteq> {p. valid_cell g p}" using nbrs_valid[of _ g current] by blast
      from frontier_measure[OF this, of seen]
      have "2 * card ({p. valid_cell g p} - ?seen') + length (rest @ ?new)
          < 2 * card ({p. valid_cell g p} - seen) + length stack"
        using st by simp
      from less.hyps[OF this inv'] show ?thesis unfolding step .
    qed
  qed
qed

lemma frontier_inv_init: "frontier_inv [start] {start} [start \<mapsto> None]"
proof -
  have "chain [start \<mapsto> None] {start} start 0" by (rule chain.chain_root) simp_all
  then show ?thesis unfolding frontier_inv_def by auto
qed

lemma bfs_returns:
  assumes "wf_grid g"
  shows "\<exists>r. bfs g start end' = Some (Inr r)"
proof (cases "\<not> valid_cell g start \<or> \<not> valid_cell g end'")
  case True
  then show ?thesis by (simp add: bfs_def endpoint_invalid_wf[OF assms])
next
  case False
  then show ?thesis
    using bfs_loop_returns[OF assms frontier_inv_init, of end' start PathfindingResult_init]
    by (simp add: bfs_def endpoint_invalid_wf[OF assms])
qed

lemma dfs_returns:
  assumes "wf_grid g"
  shows "\<exists>r. dfs g start end' = Some (Inr r)"
proof (cases "\<not> valid_cell g start \<or> \<not> valid_cell g end'")
  case True
  then show ?thesis by (simp add: dfs_def endpoint_invalid_wf[OF assms])
next
  case False
  then show ?thesis
    using dfs_loop_returns[OF assms frontier_inv_init, of end' start PathfindingResult_init]
    by (simp add: dfs_def endpoint_invalid_wf[OF assms])
qed

subsection \<open>No position twice in the visited trace\<close>

lemma bfs_loop_distinct:
  assumes "bfs_loop g end' queue seen parent result = Some (Inr r)"
    and "distinct (visited result)" "set (visited result) \<subseteq> seen"
  shows "distinct (visited r)"
proof -
  have "distinct (visited result) \<longrightarrow> set (visited result) \<subseteq> seen \<longrightarrow>
      (\<forall>r. y = Inr r \<longrightarrow> distinct (visited r))"
    if "bfs_loop g end' queue seen parent result = Some y" for y
    using that
  proof (induction g end' queue seen parent result y
      rule: bfs_loop.raw_induct[rotated 1, consumes 1])
    case (1 loop g end' queue seen parent result y)
    show ?case
    proof (intro impI allI)
      fix r assume d: "distinct (visited result)" and sub: "set (visited result) \<subseteq> seen"
        and y: "y = Inr r"
      show "distinct (visited r)"
      proof (cases queue)
        case Nil
        then show ?thesis using 1(2) d y by auto
      next
        case (Cons current rest)
        let ?r1 = "result\<lparr>exploring := exploring result @ [current]\<rparr>"
        show ?thesis
        proof (cases "current = end'")
          case True
          then have "finish parent end' (int (card seen)) ?r1 = Some (Inr r)"
            using 1(2) Cons y by (simp add: Let_def)
          from finish_traces[OF this] d show ?thesis by simp
        next
          case False
          show ?thesis
          proof (cases "get_neighbors g (fst current) (snd current) False")
            case (Inl e)
            then show ?thesis using 1(2) Cons False y by (simp add: Let_def)
          next
            case (Inr ns)
            let ?new = "fresh ns seen"
            have "loop g end' (rest @ ?new) (seen \<union> set ns)
                (\<lambda>x. if x \<in> set ?new then Some (Some current) else parent x)
                (?r1\<lparr>visited := visited ?r1 @ ?new\<rparr>) = Some y"
              using 1(2) Cons False Inr by (simp add: Let_def bfs_visit_closed)
            note ih = 1(1)[OF this]
            have a: "distinct (visited (?r1\<lparr>visited := visited ?r1 @ ?new\<rparr>))"
              using d sub by (auto simp: distinct_fresh set_fresh)
            have b: "set (visited (?r1\<lparr>visited := visited ?r1 @ ?new\<rparr>)) \<subseteq> seen \<union> set ns"
              using sub by (auto simp: set_fresh)
            from ih[rule_format, OF a b y] show ?thesis .
          qed
        qed
      qed
    qed
  qed
  then show ?thesis using assms by blast
qed


subsection \<open>The priority queue\<close>

lemma heappop_props:
  assumes "h \<noteq> []" "heappop h = (x, h')"
  shows "x \<in> set h" "set h' \<subseteq> set h" "Suc (length h') = length h" "\<forall>y \<in> set h. x \<le> y"
proof -
  have x: "x = Min (set h)" and h': "h' = remove1 x h"
    using assms(2) by (auto simp: heappop_def Let_def)
  show xin: "x \<in> set h" using assms(1) unfolding x by (intro Min_in) simp_all
  show "set h' \<subseteq> set h" unfolding h' by (rule set_remove1_subset)
  have "length h > 0" using assms(1) by simp
  then show "Suc (length h') = length h" unfolding h' using xin
    by (simp add: length_remove1)
  show "\<forall>y \<in> set h. x \<le> y" unfolding x by simp
qed

lemma length_nbrs: "length (nbrs g p) \<le> 4"
proof -
  have "length (nbrs g p)
      \<le> length [(fst p, snd p + 1), (fst p + 1, snd p), (fst p, snd p - 1), (fst p - 1, snd p)]"
    unfolding nbrs_def by (rule length_filter_le)
  then show ?thesis by simp
qed

subsection \<open>The inner loop of astar\<close>

lemma astar_visit_inv:
  assumes cur: "current \<in> settled" "current \<in> dom (g_score s)"
    and ns: "\<forall>n \<in> set ns. valid_cell g n"
    and inv: "heap_inv g settled (open_set s) (g_score s) (came_from s)"
  shows "\<exists>s'. astar_visit ns current end' settled s = Inr s' \<and>
           heap_inv g settled (open_set s') (g_score s') (came_from s') \<and>
           current \<in> dom (g_score s') \<and>
           length (open_set s') \<le> length (open_set s) + length ns \<and>
           (distinct (a_visited s) \<longrightarrow> distinct (a_visited s'))"
  using cur(2) ns inv
proof (induction ns arbitrary: s)
  case Nil
  then show ?case by simp
next
  case (Cons n ns)
  obtain gc where gc: "g_score s current = Some gc" using Cons.prems(1) by blast
  have nsv: "\<forall>n \<in> set ns. valid_cell g n" and nv: "valid_cell g n" using Cons.prems(2) by simp_all
  let ?better = "(case g_score s n of None \<Rightarrow> True | Some g_old \<Rightarrow> gc + 1 < g_old)"
  show ?case
  proof (cases "n \<in> settled \<or> \<not> ?better")
    case True
    then have eq: "astar_visit (n # ns) current end' settled s = astar_visit ns current end' settled s"
      using gc by (auto simp: Let_def)
    from Cons.IH[OF Cons.prems(1) nsv Cons.prems(3)] show ?thesis unfolding eq by auto
  next
    case False
    then have nn: "n \<notin> settled" and better: ?better by auto
    let ?f = "gc + 1 + heuristic (fst n) (snd n) (fst end') (snd end')"
    let ?s1 = "s\<lparr>came_from := (came_from s)(n \<mapsto> Some current),
                           g_score := (g_score s)(n \<mapsto> gc + 1),
                           f_score := (f_score s)(n \<mapsto> ?f),
                           open_set := heappush (open_set s) (?f, n),
                           a_visited := (if n \<notin> set (a_visited s)
                                         then a_visited s @ [n] else a_visited s)\<rparr>"
    have eq: "astar_visit (n # ns) current end' settled s = astar_visit ns current end' settled ?s1"
      using gc nn better by (simp add: Let_def)
    have hp: "\<forall>x \<in> set (open_set s). valid_cell g (snd x) \<and> snd x \<in> dom (g_score s)"
      and po: "\<forall>v \<in> dom (g_score s). v \<notin> settled \<longrightarrow>
        came_from s v = Some None \<or> (\<exists>u \<in> settled. came_from s v = Some (Some u))"
      and ch: "\<forall>v \<in> settled. \<exists>n. chain (came_from s) settled v n"
      using Cons.prems(3) by (auto simp: heap_inv_def)
    have inv1: "heap_inv g settled (open_set ?s1) (g_score ?s1) (came_from ?s1)"
      unfolding heap_inv_def
    proof (intro conjI ballI impI)
      fix x assume "x \<in> set (open_set ?s1)"
      then have "x = (?f, n) \<or> x \<in> set (open_set s)" by (auto simp: heappush_def)
      then show "valid_cell g (snd x)" "snd x \<in> dom (g_score ?s1)" using hp nv by auto
    next
      fix v assume "v \<in> dom (g_score ?s1)" "v \<notin> settled"
      then show "came_from ?s1 v = Some None \<or> (\<exists>u \<in> settled. came_from ?s1 v = Some (Some u))"
        using po cur(1) by (cases "v = n") auto
    next
      fix v assume v: "v \<in> settled"
      then obtain k where "chain (came_from s) settled v k" using ch by blast
      then have "chain (came_from ?s1) settled v k"
        by (rule chain_mono) (use nn in auto)
      then show "\<exists>k. chain (came_from ?s1) settled v k" by blast
    qed
    have c1: "current \<in> dom (g_score ?s1)" using gc by auto
    obtain s' where s': "astar_visit ns current end' settled ?s1 = Inr s'"
      "heap_inv g settled (open_set s') (g_score s') (came_from s')"
      "current \<in> dom (g_score s')"
      "length (open_set s') \<le> length (open_set ?s1) + length ns"
      "distinct (a_visited ?s1) \<longrightarrow> distinct (a_visited s')"
      using Cons.IH[OF c1 nsv inv1] by blast
    have "length (open_set ?s1) = Suc (length (open_set s))" by (simp add: heappush_def)
    moreover have "distinct (a_visited s) \<longrightarrow> distinct (a_visited ?s1)" by simp
    ultimately show ?thesis unfolding eq using s' by auto
  qed
qed


lemma heap_inv_settle:
  assumes inv: "heap_inv g settled h score parent"
    and x: "x \<in> set h" "snd x \<notin> settled" and sub: "set h' \<subseteq> set h"
  shows "heap_inv g (insert (snd x) settled) h' score parent"
    and "\<exists>n. chain parent (insert (snd x) settled) (snd x) n"
proof -
  let ?C = "insert (snd x) settled"
  have hp: "\<forall>y \<in> set h. valid_cell g (snd y) \<and> snd y \<in> dom score"
    and po: "\<forall>v \<in> dom score. v \<notin> settled \<longrightarrow>
        parent v = Some None \<or> (\<exists>u \<in> settled. parent v = Some (Some u))"
    and ch: "\<forall>v \<in> settled. \<exists>n. chain parent settled v n"
    using inv by (auto simp: heap_inv_def)
  have old: "\<exists>n. chain parent ?C v n" if v: "v \<in> settled" for v
  proof -
    obtain n where "chain parent settled v n" using ch v by blast
    then have "chain parent ?C v n" by (rule chain_mono) auto
    then show ?thesis by blast
  qed
  show new: "\<exists>n. chain parent ?C (snd x) n"
  proof -
    have "snd x \<in> dom score" using hp x(1) by blast
    then consider "parent (snd x) = Some None"
      | u where "u \<in> settled" "parent (snd x) = Some (Some u)"
      using po x(2) by blast
    then show ?thesis
    proof cases
      case 1
      then have "chain parent ?C (snd x) 0" by (intro chain.chain_root) simp_all
      then show ?thesis by blast
    next
      case 2
      obtain n where "chain parent ?C u n" using old[OF 2(1)] by blast
      with 2(2) have "chain parent ?C (snd x) (Suc n)" by (intro chain.chain_step) simp_all
      then show ?thesis by blast
    qed
  qed
  show "heap_inv g ?C h' score parent"
    unfolding heap_inv_def
  proof (intro conjI ballI impI)
    fix y assume "y \<in> set h'"
    then show "valid_cell g (snd y)" "snd y \<in> dom score" using hp sub by auto
  next
    fix v assume "v \<in> dom score" "v \<notin> ?C"
    then show "parent v = Some None \<or> (\<exists>u \<in> ?C. parent v = Some (Some u))"
      using po by auto
  next
    fix v assume "v \<in> ?C"
    then consider "v = snd x" | "v \<in> settled" by blast
    then show "\<exists>n. chain parent ?C v n"
    proof cases
      case 1 then show ?thesis using new by simp
    next
      case 2 then show ?thesis by (rule old)
    qed
  qed
qed

lemma heap_inv_sub:
  assumes "heap_inv g settled h score parent" "set h' \<subseteq> set h"
  shows "heap_inv g settled h' score parent"
  using assms unfolding heap_inv_def by blast

lemma card_settle:
  assumes "valid_cell g v" "v \<notin> settled"
  shows "Suc (card ({p. valid_cell g p} - insert v settled)) = card ({p. valid_cell g p} - settled)"
proof -
  define A where "A = {p. valid_cell g p} - insert v settled"
  have eq: "{p. valid_cell g p} - settled = insert v A"
    using assms unfolding A_def by auto
  have "finite A" unfolding A_def using finite_valid by simp
  moreover have "v \<notin> A" unfolding A_def by simp
  ultimately have "card (insert v A) = Suc (card A)" by (rule card_insert_disjoint)
  then show ?thesis unfolding eq A_def[symmetric] by simp
qed

lemma astar_loop_returns:
  assumes wf: "wf_grid g"
  shows "heap_inv g settled (open_set s) (g_score s) (came_from s) \<Longrightarrow>
     \<exists>r. astar_loop g end' settled s result = Some (Inr r) \<and>
         (distinct (visited result) \<longrightarrow> distinct (visited r))"
proof (induction "5 * card ({p. valid_cell g p} - settled) + length (open_set s)"
    arbitrary: settled s result rule: less_induct)
  case less
  show ?case
  proof (cases "open_set s = []")
    case True
    then show ?thesis by (subst astar_loop.simps) simp
  next
    case ne: False
    obtain current_f current h' where pop: "heappop (open_set s) = ((current_f, current), h')"
      by (metis surj_pair)
    note pp = heappop_props[OF ne pop]
    show ?thesis
    proof (cases "current \<in> settled")
      case True
      have step: "astar_loop g end' settled s result
          = astar_loop g end' settled (s\<lparr>open_set := h'\<rparr>) result"
        by (subst astar_loop.simps) (simp add: ne pop True)
      have inv': "heap_inv g settled (open_set (s\<lparr>open_set := h'\<rparr>))
          (g_score (s\<lparr>open_set := h'\<rparr>)) (came_from (s\<lparr>open_set := h'\<rparr>))"
        using heap_inv_sub[OF less.prems pp(2)] by simp
      have "5 * card ({p. valid_cell g p} - settled) + length (open_set (s\<lparr>open_set := h'\<rparr>))
          < 5 * card ({p. valid_cell g p} - settled) + length (open_set s)"
        using pp(3) by simp
      from less.hyps[OF this inv'] show ?thesis unfolding step .
    next
      case unsettled: False
      let ?C = "insert current settled"
      let ?r1 = "result\<lparr>exploring := exploring result @ [current]\<rparr>"
      have xs: "snd (current_f, current) \<notin> settled" using unsettled by simp
      note hs = heap_inv_settle[OF less.prems pp(1) xs pp(2), simplified]
      have cv: "valid_cell g current" and cd: "current \<in> dom (g_score s)"
        using less.prems pp(1) by (auto simp: heap_inv_def)
      show ?thesis
      proof (cases "current = end'")
        case True
        obtain n where "chain (came_from s) ?C end' n" using hs(2) True by blast
        from finish_chain[OF this, of "int (card ?C)" ?r1]
        obtain p where f: "finish (came_from s) end' (int (card ?C)) ?r1
           = Some (Inr (?r1\<lparr>path := p, found := True, path_length := int n,
                 nodes_explored := int (card ?C)\<rparr>))"
          by blast
        have "astar_loop g end' settled s result = finish (came_from s) end' (int (card ?C)) ?r1"
          by (subst astar_loop.simps) (use ne pop unsettled True in \<open>simp add: Let_def\<close>)
        then show ?thesis using f by simp
      next
        case False
        let ?ns = "nbrs g current"
        let ?s0 = "s\<lparr>open_set := h', a_visited := visited result\<rparr>"
        have nsv: "\<forall>n \<in> set ?ns. valid_cell g n" using nbrs_valid by blast
        have inv0: "heap_inv g ?C (open_set ?s0) (g_score ?s0) (came_from ?s0)"
          using hs(1) by simp
        have "current \<in> ?C" "current \<in> dom (g_score ?s0)" using cd by simp_all
        from astar_visit_inv[OF this nsv inv0, of end']
        obtain s' where s': "astar_visit ?ns current end' ?C ?s0 = Inr s'"
          "heap_inv g ?C (open_set s') (g_score s') (came_from s')"
          "length (open_set s') \<le> length (open_set ?s0) + length ?ns"
          "distinct (a_visited ?s0) \<longrightarrow> distinct (a_visited s')"
          by blast
        have step: "astar_loop g end' settled s result
          = astar_loop g end' ?C s' (?r1\<lparr>visited := a_visited s'\<rparr>)"
          by (subst astar_loop.simps)
            (simp add: ne pop unsettled False Let_def get_neighbors_wf[OF wf] s'(1))
        have "length (open_set s') \<le> length h' + 4"
          using s'(3) length_nbrs[of g current] by simp
        then have "5 * card ({p. valid_cell g p} - ?C) + length (open_set s')
          < 5 * card ({p. valid_cell g p} - settled) + length (open_set s)"
          using card_settle[OF cv unsettled] pp(3) by linarith
        from less.hyps[OF this s'(2), of "?r1\<lparr>visited := a_visited s'\<rparr>"]
        show ?thesis unfolding step using s'(4) by auto
      qed
    qed
  qed
qed


subsection \<open>The loops of dijkstra\<close>

lemma dijkstra_visit_inv:
  assumes cur: "current \<in> settled"
    and ns: "\<forall>n \<in> set ns. valid_cell g n"
    and inv: "heap_inv g settled (pq s) (distances s) (d_parent s)"
  shows "heap_inv g settled (pq (dijkstra_visit ns current current_dist settled s))
           (distances (dijkstra_visit ns current current_dist settled s))
           (d_parent (dijkstra_visit ns current current_dist settled s)) \<and>
         length (pq (dijkstra_visit ns current current_dist settled s)) \<le> length (pq s) + length ns \<and>
         (distinct (d_visited s) \<longrightarrow>
            distinct (d_visited (dijkstra_visit ns current current_dist settled s)))"
  using ns inv
proof (induction ns arbitrary: s)
  case Nil
  then show ?case by simp
next
  case (Cons n ns)
  have nsv: "\<forall>n \<in> set ns. valid_cell g n" and nv: "valid_cell g n" using Cons.prems(1) by simp_all
  let ?better = "(case distances s n of None \<Rightarrow> True | Some old \<Rightarrow> current_dist + 1 < old)"
  show ?case
  proof (cases "n \<in> settled \<or> \<not> ?better")
    case True
    then have eq: "dijkstra_visit (n # ns) current current_dist settled s
        = dijkstra_visit ns current current_dist settled s"
      by (auto simp: Let_def)
    from Cons.IH[OF nsv Cons.prems(2)] show ?thesis unfolding eq by auto
  next
    case False
    then have nn: "n \<notin> settled" and better: ?better by auto
    let ?s1 = "s\<lparr>distances := (distances s)(n \<mapsto> current_dist + 1),
                   d_parent := (d_parent s)(n \<mapsto> Some current),
                   pq := heappush (pq s) (current_dist + 1, n),
                   d_visited := (if n \<notin> set (d_visited s)
                                 then d_visited s @ [n] else d_visited s)\<rparr>"
    have eq: "dijkstra_visit (n # ns) current current_dist settled s
        = dijkstra_visit ns current current_dist settled ?s1"
      using nn better by (simp add: Let_def)
    have hp: "\<forall>x \<in> set (pq s). valid_cell g (snd x) \<and> snd x \<in> dom (distances s)"
      and po: "\<forall>v \<in> dom (distances s). v \<notin> settled \<longrightarrow>
        d_parent s v = Some None \<or> (\<exists>u \<in> settled. d_parent s v = Some (Some u))"
      and ch: "\<forall>v \<in> settled. \<exists>n. chain (d_parent s) settled v n"
      using Cons.prems(2) by (auto simp: heap_inv_def)
    have inv1: "heap_inv g settled (pq ?s1) (distances ?s1) (d_parent ?s1)"
      unfolding heap_inv_def
    proof (intro conjI ballI impI)
      fix x assume "x \<in> set (pq ?s1)"
      then have "x = (current_dist + 1, n) \<or> x \<in> set (pq s)" by (auto simp: heappush_def)
      then show "valid_cell g (snd x)" "snd x \<in> dom (distances ?s1)" using hp nv by auto
    next
      fix v assume "v \<in> dom (distances ?s1)" "v \<notin> settled"
      then show "d_parent ?s1 v = Some None \<or> (\<exists>u \<in> settled. d_parent ?s1 v = Some (Some u))"
        using po cur by (cases "v = n") auto
    next
      fix v assume v: "v \<in> settled"
      then obtain k where "chain (d_parent s) settled v k" using ch by blast
      then have "chain (d_parent ?s1) settled v k"
        by (rule chain_mono) (use nn in auto)
      then show "\<exists>k. chain (d_parent ?s1) settled v k" by blast
    qed
    note ih = Cons.IH[OF nsv inv1]
    have "length (pq ?s1) = Suc (length (pq s))" by (simp add: heappush_def)
    moreover have "distinct (d_visited s) \<longrightarrow> distinct (d_visited ?s1)" by simp
    ultimately show ?thesis unfolding eq using ih by auto
  qed
qed

lemma dijkstra_loop_returns:
  assumes wf: "wf_grid g"
  shows "heap_inv g settled (pq s) (distances s) (d_parent s) \<Longrightarrow>
     \<exists>r. dijkstra_loop g end' settled s result = Some (Inr r) \<and>
         (distinct (visited result) \<longrightarrow> distinct (visited r))"
proof (induction "5 * card ({p. valid_cell g p} - settled) + length (pq s)"
    arbitrary: settled s result rule: less_induct)
  case less
  show ?case
  proof (cases "pq s = []")
    case True
    then show ?thesis by (subst dijkstra_loop.simps) simp
  next
    case ne: False
    obtain current_dist current h' where pop: "heappop (pq s) = ((current_dist, current), h')"
      by (metis surj_pair)
    note pp = heappop_props[OF ne pop]
    show ?thesis
    proof (cases "current \<in> settled")
      case True
      have step: "dijkstra_loop g end' settled s result
          = dijkstra_loop g end' settled (s\<lparr>pq := h'\<rparr>) result"
        by (subst dijkstra_loop.simps) (simp add: ne pop True)
      have inv': "heap_inv g settled (pq (s\<lparr>pq := h'\<rparr>))
          (distances (s\<lparr>pq := h'\<rparr>)) (d_parent (s\<lparr>pq := h'\<rparr>))"
        using heap_inv_sub[OF less.prems pp(2)] by simp
      have "5 * card ({p. valid_cell g p} - settled) + length (pq (s\<lparr>pq := h'\<rparr>))
          < 5 * card ({p. valid_cell g p} - settled) + length (pq s)"
        using pp(3) by simp
      from less.hyps[OF this inv'] show ?thesis unfolding step .
    next
      case unsettled: False
      let ?C = "insert current settled"
      let ?r1 = "result\<lparr>exploring := exploring result @ [current]\<rparr>"
      have xs: "snd (current_dist, current) \<notin> settled" using unsettled by simp
      note hs = heap_inv_settle[OF less.prems pp(1) xs pp(2), simplified]
      have cv: "valid_cell g current"
        using less.prems pp(1) by (auto simp: heap_inv_def)
      show ?thesis
      proof (cases "current = end'")
        case True
        obtain n where "chain (d_parent s) ?C end' n" using hs(2) True by blast
        from finish_chain[OF this, of "int (card ?C)" ?r1]
        obtain p where f: "finish (d_parent s) end' (int (card ?C)) ?r1
           = Some (Inr (?r1\<lparr>path := p, found := True, path_length := int n,
                 nodes_explored := int (card ?C)\<rparr>))"
          by blast
        have "dijkstra_loop g end' settled s result = finish (d_parent s) end' (int (card ?C)) ?r1"
          by (subst dijkstra_loop.simps) (use ne pop unsettled True in \<open>simp add: Let_def\<close>)
        then show ?thesis using f by simp
      next
        case False
        let ?ns = "nbrs g current"
        let ?s0 = "s\<lparr>pq := h', d_visited := visited result\<rparr>"
        let ?s' = "dijkstra_visit ?ns current current_dist ?C ?s0"
        have nsv: "\<forall>n \<in> set ?ns. valid_cell g n" using nbrs_valid by blast
        have inv0: "heap_inv g ?C (pq ?s0) (distances ?s0) (d_parent ?s0)"
          using hs(1) by simp
        have "current \<in> ?C" by simp
        note s' = dijkstra_visit_inv[OF this nsv inv0, of current_dist]
        have step: "dijkstra_loop g end' settled s result
          = dijkstra_loop g end' ?C ?s' (?r1\<lparr>visited := d_visited ?s'\<rparr>)"
          by (subst dijkstra_loop.simps)
            (simp add: ne pop unsettled False Let_def get_neighbors_wf[OF wf])
        have "length (pq ?s') \<le> length h' + 4"
          using s' length_nbrs[of g current] by simp
        then have "5 * card ({p. valid_cell g p} - ?C) + length (pq ?s')
          < 5 * card ({p. valid_cell g p} - settled) + length (pq s)"
          using card_settle[OF cv unsettled] pp(3) by linarith
        from less.hyps[OF this conjunct1[OF s'], of "?r1\<lparr>visited := d_visited ?s'\<rparr>"]
        show ?thesis unfolding step using s' by auto
      qed
    qed
  qed
qed


lemma heap_inv_init:
  assumes "valid_cell g start"
  shows "heap_inv g {} [(0, start)] [start \<mapsto> 0] [start \<mapsto> None]"
  using assms by (simp add: heap_inv_def)

lemma astar_returns:
  assumes "wf_grid g"
  shows "\<exists>r. astar g start end' = Some (Inr r) \<and> distinct (visited r)"
proof (cases "\<not> valid_cell g start \<or> \<not> valid_cell g end'")
  case True
  then show ?thesis
    by (simp add: astar_def endpoint_invalid_wf[OF assms] PathfindingResult_init_def)
next
  case False
  let ?s = "\<lparr>open_set = [(0, start)], came_from = [start \<mapsto> None], g_score = [start \<mapsto> 0],
             f_score = [start \<mapsto> heuristic (fst start) (snd start) (fst end') (snd end')],
             a_visited = []\<rparr>"
  have "heap_inv g {} (open_set ?s) (g_score ?s) (came_from ?s)"
    using heap_inv_init[of g start] False by simp
  from astar_loop_returns[OF assms this, of end' PathfindingResult_init]
  show ?thesis using False
    by (simp add: astar_def endpoint_invalid_wf[OF assms] PathfindingResult_init_def)
qed

lemma dijkstra_returns:
  assumes "wf_grid g"
  shows "\<exists>r. dijkstra g start end' = Some (Inr r) \<and> distinct (visited r)"
proof (cases "\<not> valid_cell g start \<or> \<not> valid_cell g end'")
  case True
  then show ?thesis
    by (simp add: dijkstra_def endpoint_invalid_wf[OF assms] PathfindingResult_init_def)
next
  case False
  let ?s = "\<lparr>pq = [(0, start)], distances = [start \<mapsto> 0], d_parent = [start \<mapsto> None],
             d_visited = []\<rparr>"
  have "heap_inv g {} (pq ?s) (distances ?s) (d_parent ?s)"
    using heap_inv_init[of g start] False by simp
  from dijkstra_loop_returns[OF assms this, of end' PathfindingResult_init]
  show ?thesis using False
    by (simp add: dijkstra_def endpoint_invalid_wf[OF assms] PathfindingResult_init_def)
qed

lemma bfs_distinct:
  assumes "bfs g start end' = Some (Inr r)"
  shows "distinct (visited r)"
proof (cases "endpoint_invalid g start end'")
  case (Inl e)
  then show ?thesis using assms by (simp add: bfs_def)
next
  case (Inr b)
  show ?thesis
  proof (cases b)
    case True
    then show ?thesis using assms Inr by (auto simp: bfs_def PathfindingResult_init_def)
  next
    case False
    then have "bfs_loop g end' [start] {start} [start \<mapsto> None] PathfindingResult_init = Some (Inr r)"
      using assms Inr by (simp add: bfs_def)
    then show ?thesis by (rule bfs_loop_distinct) (simp_all add: PathfindingResult_init_def)
  qed
qed

text \<open>
  C6. On a grid whose array has the shape the constructor gives it, each of \<open>bfs\<close>, \<open>astar\<close>
  and \<open>dijkstra\<close> returns a result, for every start and end, and no position occurs more than
  once in the visited trace of that result.
\<close>

theorem visited_trace_distinct:
  assumes "wf_grid g"
  shows "(\<exists>r. bfs g start end' = Some (Inr r) \<and> distinct (visited r)) \<and>
         (\<exists>r. astar g start end' = Some (Inr r) \<and> distinct (visited r)) \<and>
         (\<exists>r. dijkstra g start end' = Some (Inr r) \<and> distinct (visited r))"
proof -
  obtain r where r: "bfs g start end' = Some (Inr r)" using bfs_returns[OF assms] by blast
  then have "distinct (visited r)" by (rule bfs_distinct)
  with r show ?thesis using astar_returns[OF assms] dijkstra_returns[OF assms] by blast
qed

theorem visited_trace_distinct_witness:
  "wf_grid (Grid_init 3 3) \<and>
   ((\<exists>r. bfs (Grid_init 3 3) (0, 0) (2, 2) = Some (Inr r) \<and> distinct (visited r)) \<and>
    (\<exists>r. astar (Grid_init 3 3) (0, 0) (2, 2) = Some (Inr r) \<and> distinct (visited r)) \<and>
    (\<exists>r. dijkstra (Grid_init 3 3) (0, 0) (2, 2) = Some (Inr r) \<and> distinct (visited r)))"
  by (rule conjI[OF wf_grid_init visited_trace_distinct[OF wf_grid_init]])

lemma bfs_example:
  "map_option (map_sum id visited) (bfs (Grid_init 3 3) (0, 0) (2, 2))
     = Some (Inr [(0, 1), (1, 0), (0, 2), (1, 1), (2, 0), (1, 2), (2, 1), (2, 2)])"
  by code_simp

section \<open>Properties of the puzzle solver\<close>

lemma copy_proper: "proper p \<Longrightarrow> copy p = Inr p"
  by (simp add: proper_def copy_def Puzzle_init_def)

lemma copy_gives_proper:
  assumes "copy q = Inr p" "size' q = int (length (state q))"
  shows "proper p" "state p = state q" "size' p = size' q"
  using assms by (auto simp: copy_def Puzzle_init_def proper_def split: if_splits)

lemma goal_row_length: "length (fst (goal_row tiles k num line)) = length line + k"
  by (induction tiles k num line rule: goal_row.induct) simp_all

lemma goal_rows_length: "length (goal_rows tiles n k num goal) = length goal + k"
proof (induction k arbitrary: num goal)
  case 0
  then show ?case by simp
next
  case (Suc k)
  show ?case using Suc[of "snd (goal_row tiles n num [])" "goal @ [fst (goal_row tiles n num [])]"]
    by (simp add: case_prod_beta)
qed

lemma Puzzle_init_size:
  assumes "Puzzle_init sz board = Inr p"
  shows "size' p = int (length (state p))"
proof (cases board)
  case None
  then show ?thesis using assms
    by (auto simp: Puzzle_init_def Let_def generate_goal_state_def goal_rows_length split: if_splits)
next
  case (Some b)
  then show ?thesis using assms by (auto simp: Puzzle_init_def split: if_splits)
qed

lemma BFSSolver_init_proper:
  assumes "Puzzle_init sz board = Inr puzzle" "BFSSolver_init puzzle = Inr initial"
  shows "proper initial"
  using copy_gives_proper(1)[OF _ Puzzle_init_size[OF assms(1)]] assms(2)
  by (simp add: BFSSolver_init_def)

lemma py_set_length: "py_set xs i v = Inr ys \<Longrightarrow> length ys = length xs"
  by (auto simp: py_set_def split: option.splits)

lemma state_put_frame:
  assumes "state_put p i j v = Inr p'"
  shows "size' p' = size' p \<and> total_tiles p' = total_tiles p \<and> length (state p') = length (state p)"
proof -
  obtain line where l: "py_get (state p) i = Inr line"
    using assms by (cases "py_get (state p) i") (simp_all add: state_put_def)
  obtain line' where l': "py_set line j v = Inr line'"
    using assms l by (cases "py_set line j v") (simp_all add: state_put_def)
  obtain b where b: "py_set (state p) i line' = Inr b"
    using assms l l' by (cases "py_set (state p) i line'") (simp_all add: state_put_def)
  have "p' = p\<lparr>state := b\<rparr>" using assms l l' b by (simp add: state_put_def)
  then show ?thesis using py_set_length[OF b] by simp
qed

lemma bindE_Inr_iff: "bindE m f = Inr y \<longleftrightarrow> (\<exists>x. m = Inr x \<and> f x = Inr y)"
  by (cases m) simp_all

lemma make_move_frame:
  assumes "make_move p m = Inr (ok, p')"
  shows "size' p' = size' p \<and> total_tiles p' = total_tiles p \<and> length (state p') = length (state p)"
proof -
  obtain moves where mv: "get_valid_moves p = Inr moves"
    using assms by (auto simp: make_move_def bindE_Inr_iff)
  show ?thesis
  proof (cases "m \<in> set moves")
    case False
    then show ?thesis using assms mv by (simp add: make_move_def)
  next
    case True
    from assms mv True obtain row col nr nc a b p1 where
      "state_put p row col a = Inr p1" "state_put p1 nr nc b = Inr p'"
      by (auto simp: make_move_def bindE_Inr_iff split: prod.splits)
    then show ?thesis using state_put_frame[of p row col a p1] state_put_frame[of p1 nr nc b p']
      by simp
  qed
qed

lemma make_move_proper:
  assumes "make_move p m = Inr (ok, p')" "proper p"
  shows "proper p'"
  using make_move_frame[OF assms(1)] assms(2) by (simp add: proper_def)

lemma apply_moves_snoc:
  "apply_moves p (ms @ [m]) =
     bindE (apply_moves p ms) (\<lambda>q. bindE (make_move q m) (\<lambda>(ok, q'). Inr q'))"
proof (induction ms arbitrary: p)
  case Nil
  show ?case by (cases "make_move p m") (auto split: prod.splits)
next
  case (Cons a ms)
  show ?case by (cases "make_move p a") (auto simp: Cons split: prod.splits)
qed


lemma goal_row_val:
  "num \<le> tiles + 1 \<Longrightarrow> goal_row tiles k num line =
     (line @ map (\<lambda>j. if num + int j \<le> tiles then num + int j else 0) [0..<k],
      min (num + int k) (tiles + 1))"
proof (induction k arbitrary: num line)
  case 0
  then show ?case by simp
next
  case (Suc k)
  show ?case
  proof (cases "num \<le> tiles")
    case True
    then show ?thesis using Suc.IH[of "num + 1" "line @ [num]"]
      by (simp add: map_upt_Suc add.commute add.left_commute del: upt_Suc)
  next
    case False
    then have "num = tiles + 1" using Suc.prems by simp
    then show ?thesis using Suc.IH[of num "line @ [0]"]
      by (simp add: map_upt_Suc del: upt_Suc)
  qed
qed

lemma goal_rows_val:
  "num \<le> tiles + 1 \<Longrightarrow> goal_rows tiles n k num goal =
     goal @ map (\<lambda>r. map (\<lambda>j. if num + int (r * n) + int j \<le> tiles
                                then num + int (r * n) + int j else 0) [0..<n]) [0..<k]"
proof (induction k arbitrary: num goal)
  case 0
  then show ?case by simp
next
  case (Suc k)
  define F where "F = (\<lambda>m r j. if m + int (r * n) + int j \<le> tiles
                                then m + int (r * n) + int j else 0)"
  let ?num = "min (num + int n) (tiles + 1)"
  let ?line = "map (F num 0) [0..<n]"
  have le: "?num \<le> tiles + 1" by simp
  have row: "goal_row tiles n num [] = (?line, ?num)"
    using goal_row_val[OF Suc.prems, of n "[]"] by (simp add: F_def)
  have eq: "F ?num r = F num (Suc r)" for r
  proof
    fix j
    have "int (Suc r * n) = int n + int (r * n)" by simp
    moreover have "0 \<le> int (r * n) + int j" by simp
    ultimately show "F ?num r j = F num (Suc r) j" unfolding min_def F_def by presburger
  qed
  have "goal_rows tiles n (Suc k) num goal = goal_rows tiles n k ?num (goal @ [?line])"
    by (simp add: row)
  also have "\<dots> = (goal @ [?line]) @ map (\<lambda>r. map (F ?num r) [0..<n]) [0..<k]"
    using Suc.IH[OF le, of "goal @ [?line]"] by (simp only: F_def)
  also have "\<dots> = goal @ map (\<lambda>r. map (F num r) [0..<n]) [0..<Suc k]"
    by (simp only: eq map_upt_Suc append_assoc append_Cons append_Nil)
  finally show ?case by (simp only: F_def)
qed

lemma generate_goal_state_canonical:
  assumes "proper p"
  shows "generate_goal_state p = canonical_goal (nat (size' p))"
proof -
  define n where "n = nat (size' p)"
  have t: "total_tiles p = int (n * n) - 1"
    using assms by (simp add: proper_def n_def nat_mult_distrib)
  have eq: "(\<lambda>j. if 1 + int (r * n) + int j \<le> int (n * n) - 1 then 1 + int (r * n) + int j else 0) =
      (\<lambda>j. if r * n + j + 1 < n * n then int (r * n + j + 1) else 0)" for r
  proof
    fix j
    have "1 + int (r * n) + int j = int (r * n + j + 1)" by simp
    moreover have "int (r * n + j + 1) \<le> int (n * n) - 1 \<longleftrightarrow> r * n + j + 1 < n * n"
      by linarith
    ultimately show "(if 1 + int (r * n) + int j \<le> int (n * n) - 1
          then 1 + int (r * n) + int j else 0) =
        (if r * n + j + 1 < n * n then int (r * n + j + 1) else 0)"
      by (simp only:)
  qed
  have "3 \<le> n" using assms by (simp add: proper_def n_def)
  then have "0 < n * n" by simp
  then have "(1::int) \<le> int (n * n) - 1 + 1" by linarith
  then have "goal_rows (int (n * n) - 1) n n 1 [] = canonical_goal n"
    unfolding canonical_goal_def
    by (subst goal_rows_val) (simp_all only: eq append_Nil)
  then show ?thesis
    unfolding generate_goal_state_def n_def[symmetric] t .
qed

lemma is_goal_canonical: "proper p \<Longrightarrow> is_goal p \<longleftrightarrow> state p = canonical_goal (nat (size' p))"
  by (simp add: is_goal_def generate_goal_state_canonical)

lemma apply_moves_frame:
  "apply_moves p ms = Inr q \<Longrightarrow> proper p \<Longrightarrow> proper q \<and> size' q = size' p"
proof (induction ms arbitrary: p)
  case Nil
  then show ?case by simp
next
  case (Cons m ms)
  from Cons.prems(1) obtain ok p1 where mm: "make_move p m = Inr (ok, p1)"
    and rest: "apply_moves p1 ms = Inr q"
    by (auto simp: bindE_Inr_iff)
  from make_move_proper[OF mm Cons.prems(2)] make_move_frame[OF mm] Cons.IH[OF rest]
  show ?case by simp
qed

lemma solve_moves_inv:
  assumes "solve_moves ms cur pth queue vs = Inr (queue', vs')"
    and "proper cur" "apply_moves initial pth = Inr cur" "queue_ok initial queue"
  shows "queue_ok initial queue'"
  using assms(1,4)
proof (induction ms arbitrary: queue vs)
  case Nil
  then show ?case by simp
next
  case (Cons m ms)
  have c: "copy cur = Inr cur" by (rule copy_proper[OF assms(2)])
  from Cons.prems(1) c obtain ok np where mm: "make_move cur m = Inr (ok, np)"
    by (cases "make_move cur m") auto
  have np: "proper np" by (rule make_move_proper[OF mm assms(2)])
  have ap: "apply_moves initial (pth @ [m]) = Inr np"
    by (simp add: apply_moves_snoc assms(3) mm)
  show ?case
  proof (cases "puzzle_key np \<notin> vs")
    case True
    then have "solve_moves ms cur pth (queue @ [(np, pth @ [m])]) (insert (puzzle_key np) vs) =
        Inr (queue', vs')"
      using Cons.prems(1) c mm by simp
    moreover have "queue_ok initial (queue @ [(np, pth @ [m])])"
      using Cons.prems(2) np ap by (simp add: queue_ok_def)
    ultimately show ?thesis by (rule Cons.IH)
  next
    case False
    then have "solve_moves ms cur pth queue vs = Inr (queue', vs')"
      using Cons.prems(1) c mm by simp
    then show ?thesis using Cons.prems(2) by (rule Cons.IH)
  qed
qed

lemma solve_loop_reaches_goal:
  assumes "solve_loop queue vs = Some (Inr (Some moves))" "queue_ok initial queue"
  shows "\<exists>p'. apply_moves initial moves = Inr p' \<and> proper p' \<and> is_goal p'"
proof -
  have "queue_ok initial queue \<longrightarrow> (\<forall>moves. y = Inr (Some moves) \<longrightarrow>
      (\<exists>p'. apply_moves initial moves = Inr p' \<and> proper p' \<and> is_goal p'))"
    if "solve_loop queue vs = Some y" for y
    using that
  proof (induction queue vs y rule: solve_loop.raw_induct[rotated 1, consumes 1])
    case (1 loop queue vs y)
    show ?case
    proof (intro impI allI)
      fix moves assume q: "queue_ok initial queue" and y: "y = Inr (Some moves)"
      show "\<exists>p'. apply_moves initial moves = Inr p' \<and> proper p' \<and> is_goal p'"
      proof (cases queue)
        case Nil
        then show ?thesis using 1(2) y by simp
      next
        case (Cons entry rest)
        obtain cur pth where entry: "entry = (cur, pth)" by (cases entry)
        have cur: "proper cur" "apply_moves initial pth = Inr cur" and rest: "queue_ok initial rest"
          using q Cons entry by (simp_all add: queue_ok_def)
        show ?thesis
        proof (cases "is_goal cur")
          case True
          then have "moves = pth" using 1(2) Cons entry y by simp
          then show ?thesis using cur True by simp
        next
          case False
          show ?thesis
          proof (cases "get_valid_moves cur")
            case (Inl e)
            then show ?thesis using 1(2) Cons entry False y by simp
          next
            case (Inr ms)
            show ?thesis
            proof (cases "solve_moves ms cur pth rest vs")
              case (Inl e)
              then show ?thesis using 1(2) Cons entry False y \<open>get_valid_moves cur = Inr ms\<close>
                by simp
            next
              case (Inr res)
              obtain queue' vs' where res: "res = (queue', vs')" by (cases res)
              have "loop queue' vs' = Some y"
                using 1(2) Cons entry False Inr res \<open>get_valid_moves cur = Inr ms\<close> by simp
              note ih = 1(1)[OF this]
              have "queue_ok initial queue'"
                using solve_moves_inv[OF Inr[unfolded res] cur rest] .
              from ih[rule_format, OF this y] show ?thesis .
            qed
          qed
        qed
      qed
    qed
  qed
  from this[OF assms(1)] assms(2) show ?thesis by simp
qed

lemma solve_reaches_goal:
  assumes "proper initial" "solve initial = Some (Inr (Some moves))"
  shows "\<exists>p'. apply_moves initial moves = Inr p' \<and> proper p' \<and> is_goal p'"
proof (cases "is_goal initial")
  case True
  then have "moves = []" using assms(2) by (simp add: solve_def)
  then show ?thesis using True assms(1) by simp
next
  case False
  then have "solve_loop [(initial, [])] {puzzle_key initial} = Some (Inr (Some moves))"
    using assms(2) copy_proper[OF assms(1)]
    by (auto simp: solve_def split: sum.splits bool.splits)
  moreover have "queue_ok initial [(initial, [])]" using assms(1) by (simp add: queue_ok_def)
  ultimately show ?thesis by (rule solve_loop_reaches_goal)
qed


lemma state_at_tiles: "state_at (p\<lparr>total_tiles := t\<rparr>) i j = state_at p i j"
  by (simp add: state_at_def)

lemma first_empty_tiles: "first_empty (p\<lparr>total_tiles := t\<rparr>) cells = first_empty p cells"
proof (induction cells)
  case Nil
  show ?case by simp
next
  case (Cons c cells)
  show ?case by (cases c) (simp add: state_at_tiles Cons cong: if_cong)
qed

lemma find_empty_tiles: "find_empty (p\<lparr>total_tiles := t\<rparr>) = find_empty p"
  by (simp add: find_empty_def first_empty_tiles)

lemma get_valid_moves_tiles: "get_valid_moves (p\<lparr>total_tiles := t\<rparr>) = get_valid_moves p"
  by (simp add: get_valid_moves_def find_empty_tiles)

lemma state_put_tiles:
  assumes "state_put p i j v = Inr q"
  shows "state_put (p\<lparr>total_tiles := t\<rparr>) i j v = Inr (q\<lparr>total_tiles := t\<rparr>)"
proof -
  have sw: "p\<lparr>total_tiles := t, state := b\<rparr> = p\<lparr>state := b, total_tiles := t\<rparr>" for b
    by (cases p) simp
  from assms obtain line line' b where
    "py_get (state p) i = Inr line" "py_set line j v = Inr line'"
    "py_set (state p) i line' = Inr b" "q = p\<lparr>state := b\<rparr>"
    by (auto simp: state_put_def bindE_Inr_iff)
  then show ?thesis by (simp add: state_put_def sw)
qed

lemma make_move_tiles:
  assumes "make_move p m = Inr (ok, q)"
  shows "make_move (p\<lparr>total_tiles := t\<rparr>) m = Inr (ok, q\<lparr>total_tiles := t\<rparr>)"
proof -
  obtain moves where mv: "get_valid_moves p = Inr moves"
    using assms by (auto simp: make_move_def bindE_Inr_iff)
  show ?thesis
  proof (cases "m \<in> set moves")
    case False
    then show ?thesis using assms mv by (auto simp: make_move_def get_valid_moves_tiles)
  next
    case True
    from assms mv True obtain row col nr nc a b p1 where
      fe: "find_empty p = Inr (row, col)"
      and dir: "(if m = ''up'' then Inr (row - 1, col)
                else if m = ''down'' then Inr (row + 1, col)
                else if m = ''left'' then Inr (row, col - 1)
                else if m = ''right'' then Inr (row, col + 1)
                else Inl UnboundLocalError) = Inr (nr, nc)"
      and a: "state_at p nr nc = Inr a" and b: "state_at p row col = Inr b"
      and p1: "state_put p row col a = Inr p1" and q: "state_put p1 nr nc b = Inr q"
      and ok: "ok"
      by (auto simp: make_move_def bindE_Inr_iff split: prod.splits)
    show ?thesis
      unfolding make_move_def get_valid_moves_tiles find_empty_tiles state_at_tiles
      using mv True fe a b ok state_put_tiles[OF p1, of t] state_put_tiles[OF q, of t]
      by (simp add: dir)
  qed
qed

lemma apply_moves_tiles:
  "apply_moves p ms = Inr q \<Longrightarrow>
     apply_moves (p\<lparr>total_tiles := t\<rparr>) ms = Inr (q\<lparr>total_tiles := t\<rparr>)"
proof (induction ms arbitrary: p)
  case Nil
  then show ?case by simp
next
  case (Cons m ms)
  from Cons.prems obtain ok p1 where mm: "make_move p m = Inr (ok, p1)"
    and rest: "apply_moves p1 ms = Inr q"
    by (auto simp: bindE_Inr_iff)
  show ?case using make_move_tiles[OF mm, of t] Cons.IH[OF rest] by simp
qed

text \<open>
  C4. For a puzzle made by the constructor and a solver made for it: when the board of the
  puzzle is the canonical goal of its size (the tiles 1 to N * N - 1 row by row, then the
  blank), \<open>solve\<close> returns the empty list of moves; and whenever \<open>solve\<close> returns a list of
  moves, applying these moves one after the other with \<open>make_move\<close> to the puzzle raises
  nothing and ends on the canonical goal of its size.
\<close>

theorem solve_correct:
  assumes "Puzzle_init sz board = Inr puzzle" "BFSSolver_init puzzle = Inr solver"
  shows "(state puzzle = canonical_goal (nat (size' puzzle)) \<longrightarrow>
            solve solver = Some (Inr (Some []))) \<and>
         (\<forall>moves. solve solver = Some (Inr (Some moves)) \<longrightarrow>
            (\<exists>p'. apply_moves puzzle moves = Inr p' \<and>
                  state p' = canonical_goal (nat (size' puzzle))))"
proof (intro conjI impI allI)
  have c: "copy puzzle = Inr solver" using assms(2) by (simp add: BFSSolver_init_def)
  note cp = copy_gives_proper[OF c Puzzle_init_size[OF assms(1)]]
  have pz: "puzzle = solver\<lparr>total_tiles := total_tiles puzzle\<rparr>"
    using cp(2,3) by simp
  {
    assume "state puzzle = canonical_goal (nat (size' puzzle))"
    then have "is_goal solver" using cp by (simp add: is_goal_canonical)
    then show "solve solver = Some (Inr (Some []))" by (simp add: solve_def)
  }
  {
    fix moves assume "solve solver = Some (Inr (Some moves))"
    from solve_reaches_goal[OF cp(1) this] obtain p' where
      p': "apply_moves solver moves = Inr p'" "proper p'" "is_goal p'" by blast
    have "size' p' = size' solver" using apply_moves_frame[OF p'(1) cp(1)] by simp
    then have "state p' = canonical_goal (nat (size' puzzle))"
      using p'(2,3) cp(3) by (simp add: is_goal_canonical)
    moreover have "apply_moves puzzle moves = Inr (p'\<lparr>total_tiles := total_tiles puzzle\<rparr>)"
      by (subst pz) (rule apply_moves_tiles[OF p'(1)])
    ultimately show "\<exists>p'. apply_moves puzzle moves = Inr p' \<and>
        state p' = canonical_goal (nat (size' puzzle))"
      by simp
  }
qed

theorem solve_correct_witness:
  "(Puzzle_init 3 None =
      Inr \<lparr>size' = 3, total_tiles = 8, state = [[1, 2, 3], [4, 5, 6], [7, 8, 0]]\<rparr> \<and>
    BFSSolver_init \<lparr>size' = 3, total_tiles = 8, state = [[1, 2, 3], [4, 5, 6], [7, 8, 0]]\<rparr> =
      Inr \<lparr>size' = 3, total_tiles = 8, state = [[1, 2, 3], [4, 5, 6], [7, 8, 0]]\<rparr> \<and>
    canonical_goal 3 = [[1, 2, 3], [4, 5, 6], [7, 8, 0]] \<and>
    solve \<lparr>size' = 3, total_tiles = 8, state = [[1, 2, 3], [4, 5, 6], [7, 8, 0]]\<rparr> =
      Some (Inr (Some []))) \<and>
   (Puzzle_init 3 (Some [[1, 2, 3], [4, 0, 6], [7, 5, 8]]) =
      Inr \<lparr>size' = 3, total_tiles = 8, state = [[1, 2, 3], [4, 0, 6], [7, 5, 8]]\<rparr> \<and>
    BFSSolver_init \<lparr>size' = 3, total_tiles = 8, state = [[1, 2, 3], [4, 0, 6], [7, 5, 8]]\<rparr> =
      Inr \<lparr>size' = 3, total_tiles = 8, state = [[1, 2, 3], [4, 0, 6], [7, 5, 8]]\<rparr> \<and>
    solve \<lparr>size' = 3, total_tiles = 8, state = [[1, 2, 3], [4, 0, 6], [7, 5, 8]]\<rparr> =
      Some (Inr (Some [''down'', ''right''])) \<and>
    (\<exists>p'. apply_moves \<lparr>size' = 3, total_tiles = 8, state = [[1, 2, 3], [4, 0, 6], [7, 5, 8]]\<rparr>
             [''down'', ''right''] = Inr p' \<and>
           state p' = [[1, 2, 3], [4, 5, 6], [7, 8, 0]]))"
proof -
  let ?G = "\<lparr>size' = 3, total_tiles = 8, state = [[1, 2, 3], [4, 5, 6], [7, 8, 0]]\<rparr>"
  let ?P = "\<lparr>size' = 3, total_tiles = 8, state = [[1, 2, 3], [4, 0, 6], [7, 5, 8]]\<rparr>"
  have cg: "canonical_goal 3 = [[1, 2, 3], [4, 5, 6], [7, 8, 0]]"
    by (simp add: canonical_goal_def upt_rec)
  have g1: "Puzzle_init 3 None = Inr ?G"
    by (simp add: Puzzle_init_def generate_goal_state_def numeral_3_eq_3)
  have g2: "BFSSolver_init ?G = Inr ?G"
    by (simp add: BFSSolver_init_def copy_def Puzzle_init_def)
  have p1: "Puzzle_init 3 (Some [[1, 2, 3], [4, 0, 6], [7, 5, 8]]) = Inr ?P"
    by (simp add: Puzzle_init_def)
  have p2: "BFSSolver_init ?P = Inr ?P"
    by (simp add: BFSSolver_init_def copy_def Puzzle_init_def)
  have sol: "solve ?P = Some (Inr (Some [''down'', ''right'']))"
    by code_simp
  have "solve ?G = Some (Inr (Some []))"
    using solve_correct[OF g1 g2] cg by simp
  moreover have "\<exists>p'. apply_moves ?P [''down'', ''right''] = Inr p' \<and>
      state p' = [[1, 2, 3], [4, 5, 6], [7, 8, 0]]"
    using solve_correct[OF p1 p2] sol cg by simp
  ultimately show ?thesis using cg g1 g2 p1 p2 sol by simp
qed

end
